theory Spec2Isabelle
  imports Complex_Main
begin

section \<open>Data model of the segmented generation engine\<close>

text \<open>
  The embedding follows \<^verbatim>\<open>LLaMA_lora_hyper_infini_query/llama/llama_adapter.py\<close>:
  the methods \<^verbatim>\<open>forward\<close>, \<^verbatim>\<open>forward_inference\<close> and \<^verbatim>\<open>generate\<close> of
  \<^verbatim>\<open>LLaMA_adapter\<close>. The tokens of a prompt are Python integers, which become 64-bit
  integers when they are written into the grid; sizes and positions (\<^verbatim>\<open>max_seq_len\<close>,
  \<^verbatim>\<open>max_gen_len\<close>, \<^verbatim>\<open>segment_size\<close>, \<^verbatim>\<open>start_pos\<close>) are natural numbers, so negative
  sizes are outside the model. Every exception the source can raise is a value of
  \<open>error\<close>; calls into the transformer, the hypernetwork and the sampler return.
\<close>

type_synonym token = int
type_synonym grid = "token list list"
type_synonym mask = "bool list list"

datatype error =
  AssertionError | ValueError | IndexError | RuntimeError | TypeError | UnboundLocalError

subsection \<open>Machine integers\<close>

text \<open>
  The token grid and the labels are tensors of 64-bit signed integers. \<^verbatim>\<open>torch.tensor\<close>
  and \<^verbatim>\<open>torch.full\<close> refuse a Python integer outside that range
  (\<^verbatim>\<open>RuntimeError: Overflow when unpacking long\<close>), and a sum over such a tensor wraps.
\<close>

definition is_int64 :: "int \<Rightarrow> bool" where
  "is_int64 x \<longleftrightarrow> - (2 ^ 63) \<le> x \<and> x < 2 ^ 63"

definition wrap64 :: "int \<Rightarrow> int" where
  \<comment> \<open>the 64-bit signed integer that an exact result wraps to\<close>
  "wrap64 x = (x + 2 ^ 63) mod 2 ^ 64 - 2 ^ 63"

subsection \<open>Floating-point values and the masked mean\<close>

text \<open>
  The tensors of hidden states hold IEEE floating-point numbers. Division in \<^verbatim>\<open>torch\<close>
  never raises: \<open>0/0\<close> is NaN and \<open>x/0\<close> is an infinity. The result of an operation on
  finite values is the exact result rounded by \<open>rnd\<close>, the rounding of the tensors'
  format, which may overflow to an infinity; the two zeros are not told apart, and a
  reduction adds from left to right.
\<close>

datatype fval = Fin real | PInf | NInf | NaN

fun fneg :: "fval \<Rightarrow> fval" where
  "fneg (Fin a) = Fin (- a)"
| "fneg PInf = NInf"
| "fneg NInf = PInf"
| "fneg NaN = NaN"

fun fadd :: "(real \<Rightarrow> fval) \<Rightarrow> fval \<Rightarrow> fval \<Rightarrow> fval" where
  "fadd rnd NaN y = NaN"
| "fadd rnd x NaN = NaN"
| "fadd rnd (Fin a) (Fin b) = rnd (a + b)"
| "fadd rnd (Fin a) y = y"
| "fadd rnd x (Fin b) = x"
| "fadd rnd PInf PInf = PInf"
| "fadd rnd NInf NInf = NInf"
| "fadd rnd PInf NInf = NaN"
| "fadd rnd NInf PInf = NaN"

fun fmul :: "(real \<Rightarrow> fval) \<Rightarrow> fval \<Rightarrow> fval \<Rightarrow> fval" where
  "fmul rnd NaN y = NaN"
| "fmul rnd x NaN = NaN"
| "fmul rnd (Fin a) (Fin b) = rnd (a * b)"
| "fmul rnd (Fin a) y = (if a = 0 then NaN else if 0 < a then y else fneg y)"
| "fmul rnd x (Fin b) = (if b = 0 then NaN else if 0 < b then x else fneg x)"
| "fmul rnd PInf y = y"
| "fmul rnd NInf y = fneg y"

fun fdiv :: "(real \<Rightarrow> fval) \<Rightarrow> fval \<Rightarrow> fval \<Rightarrow> fval" where
  "fdiv rnd NaN y = NaN"
| "fdiv rnd x NaN = NaN"
| "fdiv rnd (Fin a) (Fin b) =
     (if b = 0 then (if a = 0 then NaN else if 0 < a then PInf else NInf) else rnd (a / b))"
| "fdiv rnd (Fin a) y = Fin 0"
| "fdiv rnd x (Fin b) = (if 0 \<le> b then x else fneg x)"
| "fdiv rnd x y = NaN"

definition fsum :: "(real \<Rightarrow> fval) \<Rightarrow> fval list \<Rightarrow> fval" where
  \<comment> \<open>\<^verbatim>\<open>torch.sum\<close> along one axis\<close>
  "fsum rnd xs = foldl (fadd rnd) (Fin 0) xs"

definition mask_float :: "bool \<Rightarrow> fval" where
  \<comment> \<open>\<^verbatim>\<open>prompt_mask\<close> is a float tensor of zeros and ones (\<^verbatim>\<open>.clone().float()\<close>)\<close>
  "mask_float b = (if b then Fin 1 else Fin 0)"

type_synonym hidden = "fval list list list"  \<comment> \<open>batch, positions, width\<close>
type_synonym pooled = "fval list list"       \<comment> \<open>batch, width\<close>

definition pool_row :: "(real \<Rightarrow> fval) \<Rightarrow> nat \<Rightarrow> fval list list \<Rightarrow> bool list \<Rightarrow> fval list" where
  \<comment> \<open>\<^verbatim>\<open>torch.sum(h * prompt_mask.unsqueeze(-1), dim=1) / denom\<close>, one sequence of the batch;
      \<open>d\<close> is the width of the hidden states\<close>
  "pool_row rnd d hs ms =
     (let denom = fsum rnd (map mask_float ms);
          weighted = map (\<lambda>(v, m). map (\<lambda>x. fmul rnd x (mask_float m)) v) (zip hs ms);
          summed = foldl (\<lambda>acc v. map (\<lambda>(a, x). fadd rnd a x) (zip acc v)) (replicate d (Fin 0)) weighted
      in map (\<lambda>s. fdiv rnd s denom) summed)"

definition masked_mean_pool :: "(real \<Rightarrow> fval) \<Rightarrow> nat \<Rightarrow> hidden \<Rightarrow> mask \<Rightarrow> pooled" where
  \<comment> \<open>the hidden states and the mask have the same batch size and the same number of
      positions wherever \<^verbatim>\<open>generate\<close> passes a mask; other shapes are outside the model\<close>
  "masked_mean_pool rnd d h pm = map (\<lambda>(hs, ms). pool_row rnd d hs ms) (zip h pm)"

subsection \<open>Ranges, slices and the split into segments\<close>

definition py_range :: "nat \<Rightarrow> nat \<Rightarrow> nat \<Rightarrow> error + nat list" where
  \<comment> \<open>\<^verbatim>\<open>list(range(start, stop, step))\<close>; a zero step raises \<^verbatim>\<open>ValueError\<close>\<close>
  "py_range start stop step =
     (if step = 0 then Inl ValueError
      else Inr (map (\<lambda>k. start + k * step) [0..<(stop - start + (step - 1)) div step]))"

definition slice_py :: "nat \<Rightarrow> nat \<Rightarrow> 'a list \<Rightarrow> 'a list" where
  \<comment> \<open>\<^verbatim>\<open>xs[a:b]\<close> for non-negative bounds\<close>
  "slice_py a b xs = drop a (take b xs)"

definition width :: "'a list list \<Rightarrow> nat" where
  \<comment> \<open>\<^verbatim>\<open>t.shape[1]\<close> of a batch with at least one row\<close>
  "width g = (case g of [] \<Rightarrow> 0 | r # _ \<Rightarrow> length r)"

fun tensor_split :: "nat \<Rightarrow> nat list \<Rightarrow> 'a list list \<Rightarrow> 'a list list list" where
  \<comment> \<open>\<^verbatim>\<open>torch.tensor_split(t, indices, dim=1)\<close>: the sections \<^verbatim>\<open>t[:, lo:i]\<close> between
      consecutive indices and the rest \<^verbatim>\<open>t[:, lo:]\<close>\<close>
  "tensor_split lo [] g = [map (drop lo) g]"
| "tensor_split lo (i # idxs) g = map (slice_py lo i) g # tensor_split i idxs g"

definition need_segment :: "nat \<Rightarrow> nat \<Rightarrow> nat \<Rightarrow> bool" where
  \<comment> \<open>\<^verbatim>\<open>prev_pos == 0 and cur_pos > segment_size\<close>\<close>
  "need_segment prev_pos cur_pos segment_size \<longleftrightarrow> prev_pos = 0 \<and> cur_pos > segment_size"

subsection \<open>The pooling mask\<close>

fun starts_with :: "'a list \<Rightarrow> 'a list \<Rightarrow> bool" where
  "starts_with s [] = True"
| "starts_with [] (p # ps) = False"
| "starts_with (c # cs) (p # ps) = (c = p \<and> starts_with cs ps)"

fun str_in :: "string \<Rightarrow> string \<Rightarrow> bool" where
  \<comment> \<open>Python's \<^verbatim>\<open>sub in s\<close> on strings: the substring test\<close>
  "str_in sub [] = (sub = [])"
| "str_in sub (c # cs) = (starts_with (c # cs) sub \<or> str_in sub cs)"

definition is_instruction :: "string \<Rightarrow> bool" where
  \<comment> \<open>\<^verbatim>\<open>hyper_input_type in ('instruction')\<close>: the parentheses make no tuple, so this is
      a substring test against the string \<^verbatim>\<open>'instruction'\<close>\<close>
  "is_instruction hyper_input_type = str_in hyper_input_type ''instruction''"

definition slice_bound :: "nat \<Rightarrow> int \<Rightarrow> nat" where
  \<comment> \<open>a slice endpoint against a length: negative endpoints count from the end, and the
      result is clipped to the length\<close>
  "slice_bound n i = (if i < 0 then nat (max 0 (int n + i)) else min (nat i) n)"

definition set_span :: "bool list \<Rightarrow> int \<times> int \<Rightarrow> bool list" where
  \<comment> \<open>\<^verbatim>\<open>row[h_span[0]:h_span[1]] = 1\<close>\<close>
  "set_span row sp =
     (let a = slice_bound (length row) (fst sp); b = slice_bound (length row) (snd sp)
      in if a < b then take a row @ replicate (b - a) True @ drop b row else row)"

definition zeros_like :: "mask \<Rightarrow> mask" where
  "zeros_like pm = map (map (\<lambda>_. False)) pm"

fun spans_segmented :: "nat \<Rightarrow> mask \<Rightarrow> nat \<Rightarrow> (int \<times> int) list \<Rightarrow> error + mask" where
  \<comment> \<open>the loop over \<^verbatim>\<open>hyper_input_spans\<close> of the segmented branch, with its assertion\<close>
  "spans_segmented S pm j [] = Inr pm"
| "spans_segmented S pm j (sp # sps) =
     (if \<not> snd sp \<le> int S then Inl AssertionError
      else if length pm \<le> j then Inl IndexError
      else spans_segmented S (pm[j := set_span (pm ! j) sp]) (Suc j) sps)"

fun spans_whole :: "mask \<Rightarrow> nat \<Rightarrow> (int \<times> int) list \<Rightarrow> error + mask" where
  \<comment> \<open>the loop over \<^verbatim>\<open>hyper_input_spans\<close> of the non-segmented branch\<close>
  "spans_whole pm j [] = Inr pm"
| "spans_whole pm j (sp # sps) =
     (if length pm \<le> j then Inl IndexError
      else spans_whole (pm[j := set_span (pm ! j) sp]) (Suc j) sps)"

definition prompt_mask_segmented ::
  "nat \<Rightarrow> string \<Rightarrow> (int \<times> int) list \<Rightarrow> mask \<Rightarrow> error + mask" where
  \<comment> \<open>\<^verbatim>\<open>input_text_mask[:, :segment_size]\<close>, replaced by the spans under the instruction policy\<close>
  "prompt_mask_segmented S hyper_input_type spans input_text_mask =
     (let pm = map (take S) input_text_mask
      in if is_instruction hyper_input_type then spans_segmented S (zeros_like pm) 0 spans
         else Inr pm)"

definition prompt_mask_whole ::
  "nat \<Rightarrow> nat \<Rightarrow> string \<Rightarrow> (int \<times> int) list \<Rightarrow> mask \<Rightarrow> error + mask" where
  \<comment> \<open>\<^verbatim>\<open>input_text_mask[:, prev_pos:cur_pos]\<close>, replaced by the spans under the instruction policy\<close>
  "prompt_mask_whole prev_pos cur_pos hyper_input_type spans input_text_mask =
     (let pm = map (slice_py prev_pos cur_pos) input_text_mask
      in if is_instruction hyper_input_type then spans_whole (zeros_like pm) 0 spans
         else Inr pm)"

subsection \<open>External collaborators, configuration and model state\<close>

text \<open>
  The base transformer, the hypernetwork, the sampler and the tokenizer are outside the
  file: they are the fields of \<open>net\<close>, arbitrary functions. \<open>'p\<close> is a layer's tuple of
  six LoRA tensors, \<open>'m\<close> the pair of \<^verbatim>\<open>memory\<close> and \<^verbatim>\<open>norm_term\<close>, \<open>'lg\<close> the logits.
  \<open>sample\<close> gives the token drawn for a row from the logits of a step (softmax and
  top-p under a positive temperature, argmax otherwise). \<open>rounding\<close> is the rounding of
  the float format in which the pooled vector is computed. \<open>hyper_none\<close> is what the
  hypernetwork does when it is called on \<^verbatim>\<open>None\<close>, and \<open>train_loss\<close> is the output
  projection followed by the criterion, which may raise.
\<close>

record ('p, 'm, 'lg) net =
  tok_embeddings :: "grid \<Rightarrow> hidden"
  layer :: "nat \<Rightarrow> 'p option \<Rightarrow> hidden \<Rightarrow> nat \<Rightarrow> mask option \<Rightarrow> 'm \<Rightarrow> hidden \<times> 'm"
  hyper_all :: "pooled \<Rightarrow> nat \<Rightarrow> 'p"
  hyper_one :: "pooled \<Rightarrow> nat \<Rightarrow> 'p"
  hyper_none :: "error + (nat \<Rightarrow> 'p)"
  rounding :: "real \<Rightarrow> fval"
  norm_output :: "hidden \<Rightarrow> 'lg"
  zero_loss :: "hidden \<Rightarrow> 'lg"
  train_loss :: "hidden \<Rightarrow> grid \<Rightarrow> error + 'lg"
  sample :: "nat \<Rightarrow> 'lg \<Rightarrow> nat \<Rightarrow> token"
  decode :: "token list \<Rightarrow> string"
  empty_memory :: 'm

record config =
  n_layers :: nat
  hyper_lora_start :: "nat option"
  serial_generate :: bool
  hidden_dim :: nat
  vocab_size :: nat
  max_batch_size :: nat
  max_seq_len :: nat
  pad_id :: token
  eos_id :: token

text \<open>
  The trace is a log of what a call did: each forward call with its \<^verbatim>\<open>start_pos\<close>, its
  sequence length and its \<^verbatim>\<open>prompt_mask\<close>, each call of the hypernetwork with the
  \<^verbatim>\<open>start_pos\<close> of the forward call around it, its \<^verbatim>\<open>hyper_index\<close> and its input (a
  pooled vector, or \<^verbatim>\<open>None\<close>), and each \<^verbatim>\<open>apply_lora_params\<close>.
\<close>

datatype event =
  Forward nat nat "mask option"
  | HyperNet nat "nat option" pooled
  | HyperNetNone nat
  | ApplyLora nat

record ('p, 'm) mstate =
  lora :: "nat \<Rightarrow> 'p option"
  memory :: 'm
  pooling_states :: "pooled option"
  trace :: "event list"

definition pre_layers :: "config \<Rightarrow> nat list" where
  \<comment> \<open>\<^verbatim>\<open>self.llama.layers[:self.hyper_lora_start]\<close>\<close>
  "pre_layers cfg =
     (case hyper_lora_start cfg of None \<Rightarrow> [0..<n_layers cfg] | Some s \<Rightarrow> take s [0..<n_layers cfg])"

definition hyper_enabled :: "config \<Rightarrow> bool" where
  \<comment> \<open>\<^verbatim>\<open>if self.hyper_lora_start:\<close> is false for \<^verbatim>\<open>None\<close> and for the index 0\<close>
  "hyper_enabled cfg = (case hyper_lora_start cfg of None \<Rightarrow> False | Some s \<Rightarrow> s \<noteq> 0)"

definition hyper_layers :: "config \<Rightarrow> nat list" where
  \<comment> \<open>the hyper-adapted layers: \<^verbatim>\<open>self.llama.layers[self.hyper_lora_start:]\<close>, a slice
      that the code takes only where \<open>hyper_enabled\<close> holds; a model whose
      \<^verbatim>\<open>hyper_lora_start\<close> is \<^verbatim>\<open>None\<close> has no hyper-adapted layer\<close>
  "hyper_layers cfg =
     (case hyper_lora_start cfg of None \<Rightarrow> [] | Some s \<Rightarrow> drop s [0..<n_layers cfg])"

definition mask_of :: "mask option \<Rightarrow> mask" where
  "mask_of pm = (case pm of None \<Rightarrow> [] | Some m \<Rightarrow> m)"

fun run_layers ::
  "('p, 'm, 'lg) net \<Rightarrow> nat \<Rightarrow> mask option \<Rightarrow> nat list \<Rightarrow> hidden \<times> ('p, 'm) mstate
     \<Rightarrow> hidden \<times> ('p, 'm) mstate" where
  "run_layers net sp pm [] hs = hs"
| "run_layers net sp pm (l # ls) (h, st) =
     (case layer net l (lora st l) h sp pm (memory st) of
        (h', m') \<Rightarrow> run_layers net sp pm ls (h', st\<lparr>memory := m'\<rparr>))"

fun apply_lora_all :: "(nat \<Rightarrow> 'p) \<Rightarrow> nat \<Rightarrow> nat list \<Rightarrow> ('p, 'm) mstate \<Rightarrow> ('p, 'm) mstate" where
  \<comment> \<open>\<^verbatim>\<open>for hi, layer in enumerate(...): layer.apply_lora_params(*params[hi])\<close>\<close>
  "apply_lora_all params hi [] st = st"
| "apply_lora_all params hi (l # ls) st =
     apply_lora_all params (Suc hi) ls
       (st\<lparr>lora := (lora st)(l := Some (params hi)), trace := trace st @ [ApplyLora l]\<rparr>)"

fun serial_layers ::
  "('p, 'm, 'lg) net \<Rightarrow> nat \<Rightarrow> nat \<Rightarrow> mask option \<Rightarrow> nat \<Rightarrow> nat list \<Rightarrow> hidden \<times> ('p, 'm) mstate
     \<Rightarrow> hidden \<times> ('p, 'm) mstate" where
  \<comment> \<open>the loop of the serial policy: at \<^verbatim>\<open>start_pos == 0\<close> each layer pools the current
      hidden states and asks the hypernetwork for its own parameters\<close>
  "serial_layers net d sp pm i [] hs = hs"
| "serial_layers net d sp pm i (l # ls) (h, st) =
     (let st1 =
        (if sp = 0 then
           (let pooling = masked_mean_pool (rounding net) d h (mask_of pm)
            in st\<lparr>lora := (lora st)(l := Some (hyper_one net pooling i)),
                  trace := trace st @ [HyperNet sp (Some i) pooling, ApplyLora l]\<rparr>)
         else st)
      in case layer net l (lora st1 l) h sp pm (memory st1) of
           (h', m') \<Rightarrow> serial_layers net d sp pm (Suc i) ls (h', st1\<lparr>memory := m'\<rparr>))"

subsection \<open>\<^verbatim>\<open>forward_inference\<close> and \<^verbatim>\<open>forward\<close>\<close>

definition hyper_block_inference ::
  "('p, 'm, 'lg) net \<Rightarrow> config \<Rightarrow> nat \<Rightarrow> mask option \<Rightarrow> hidden \<times> ('p, 'm) mstate
     \<Rightarrow> error + hidden \<times> ('p, 'm) mstate" where
  \<comment> \<open>the block under \<^verbatim>\<open>if self.hyper_lora_start:\<close> of \<^verbatim>\<open>forward_inference\<close>;
      \<^verbatim>\<open>torch.sum(None, -1)\<close> raises when the first call comes without a mask\<close>
  "hyper_block_inference net cfg sp pm hs =
     (case hs of (h, st) \<Rightarrow>
        if \<not> hyper_enabled cfg then Inr (h, st)
        else if sp = 0 \<and> pm = None then Inl TypeError
        else if \<not> serial_generate cfg then
          (let st1 =
             (if sp = 0 then
                (let pooling = masked_mean_pool (rounding net) (hidden_dim cfg) h (mask_of pm)
                 in apply_lora_all (hyper_all net pooling) 0 (hyper_layers cfg)
                      (st\<lparr>trace := trace st @ [HyperNet sp None pooling]\<rparr>))
              else st)
           in Inr (run_layers net sp pm (hyper_layers cfg) (h, st1)))
        else Inr (serial_layers net (hidden_dim cfg) sp pm 0 (hyper_layers cfg) (h, st)))"

definition forward_inference ::
  "('p, 'm, 'lg) net \<Rightarrow> config \<Rightarrow> grid \<Rightarrow> nat \<Rightarrow> mask option \<Rightarrow> ('p, 'm) mstate
     \<Rightarrow> error + 'lg \<times> ('p, 'm) mstate" where
  \<comment> \<open>\<^verbatim>\<open>h[:, -1, :]\<close> raises \<^verbatim>\<open>IndexError\<close> on a batch without positions\<close>
  "forward_inference net cfg toks start_pos prompt_mask st0 =
     (let seqlen = width toks;
          st1 = st0\<lparr>trace := trace st0 @ [Forward start_pos seqlen prompt_mask]\<rparr>;
          hs = run_layers net start_pos prompt_mask (pre_layers cfg) (tok_embeddings net toks, st1)
      in case hyper_block_inference net cfg start_pos prompt_mask hs of
           Inl e \<Rightarrow> Inl e
         | Inr (h2, st3) \<Rightarrow>
             if seqlen = 0 then Inl IndexError else Inr (norm_output net h2, st3))"

definition hyper_block_train ::
  "('p, 'm, 'lg) net \<Rightarrow> config \<Rightarrow> nat \<Rightarrow> mask option \<Rightarrow> hidden \<times> ('p, 'm) mstate
     \<Rightarrow> error + hidden \<times> ('p, 'm) mstate" where
  \<comment> \<open>the block under \<^verbatim>\<open>if self.hyper_lora_start:\<close> of \<^verbatim>\<open>forward\<close>: the parallel policy has
      an \<^verbatim>\<open>else\<close> branch (\<^verbatim>\<open>only for infini train\<close>) that calls the hypernetwork on
      \<^verbatim>\<open>self.pooling_states\<close>, which is \<^verbatim>\<open>None\<close> until a call with \<^verbatim>\<open>start_pos == 0\<close>
      has stored a pooled vector\<close>
  "hyper_block_train net cfg sp pm hs =
     (case hs of (h, st) \<Rightarrow>
        if \<not> hyper_enabled cfg then Inr (h, st)
        else if sp = 0 \<and> pm = None then Inl TypeError
        else if \<not> serial_generate cfg then
          (if sp = 0 then
             (let pooling = masked_mean_pool (rounding net) (hidden_dim cfg) h (mask_of pm);
                  st1 = apply_lora_all (hyper_all net pooling) 0 (hyper_layers cfg)
                          (st\<lparr>trace := trace st @ [HyperNet sp None pooling]\<rparr>)
              in Inr (run_layers net sp pm (hyper_layers cfg)
                        (h, st1\<lparr>pooling_states := Some pooling\<rparr>)))
           else
             (case pooling_states st of
                None \<Rightarrow>
                  (case hyper_none net of
                     Inl e \<Rightarrow> Inl e
                   | Inr params \<Rightarrow>
                       Inr (run_layers net sp pm (hyper_layers cfg)
                              (h, apply_lora_all params 0 (hyper_layers cfg)
                                    (st\<lparr>trace := trace st @ [HyperNetNone sp]\<rparr>))))
              | Some cached \<Rightarrow>
                  Inr (run_layers net sp pm (hyper_layers cfg)
                         (h, apply_lora_all (hyper_all net cached) 0 (hyper_layers cfg)
                               (st\<lparr>trace := trace st @ [HyperNet sp None cached]\<rparr>)))))
        else Inr (serial_layers net (hidden_dim cfg) sp pm 0 (hyper_layers cfg) (h, st)))"

definition forward ::
  "('p, 'm, 'lg) net \<Rightarrow> config \<Rightarrow> grid \<Rightarrow> grid \<Rightarrow> nat \<Rightarrow> mask option \<Rightarrow> ('p, 'm) mstate
     \<Rightarrow> error + 'lg \<times> ('p, 'm) mstate" where
  \<comment> \<open>\<^verbatim>\<open>labels\<close> is a tensor of 64-bit integers, so \<^verbatim>\<open>labels.sum()\<close> wraps\<close>
  "forward net cfg toks labels start_pos prompt_mask st0 =
     (let seqlen = width toks;
          st1 = st0\<lparr>trace := trace st0 @ [Forward start_pos seqlen prompt_mask]\<rparr>;
          hs = run_layers net start_pos prompt_mask (pre_layers cfg) (tok_embeddings net toks, st1)
      in case hyper_block_train net cfg start_pos prompt_mask hs of
           Inl e \<Rightarrow> Inl e
         | Inr (h2, st3) \<Rightarrow>
             if wrap64 (sum_list (concat labels)) = 0 then Inr (zero_loss net h2, st3)
             else if vocab_size cfg \<noteq> 32000 then Inl AssertionError
             else (case train_loss net h2 labels of
                     Inl e \<Rightarrow> Inl e
                   | Inr loss \<Rightarrow> Inr (loss, st3)))"

subsection \<open>\<^verbatim>\<open>generate\<close>\<close>

record gen_args =
  prompts :: grid
  max_gen_len :: nat
  segment_size :: nat
  hyper_input_type :: string
  hyper_input_spans :: "(int \<times> int) list"

text \<open>
  The state of the decoding loop. \<open>steps\<close> logs every iteration that reached the write
  into the grid: the position, the tokens drawn by the sampler and the tokens written.
\<close>

record ('p, 'm) loop_state =
  tokens :: grid
  prev_pos :: nat
  model :: "('p, 'm) mstate"
  steps :: "(nat \<times> token list \<times> token list) list"

record ('p, 'm) gen_result =
  decoded :: "string list"
  final :: "('p, 'm) loop_state"

fun list_min :: "nat list \<Rightarrow> nat" where
  "list_min [] = 0"
| "list_min [x] = x"
| "list_min (x # y # zs) = min x (list_min (y # zs))"

fun list_max :: "nat list \<Rightarrow> nat" where
  "list_max [] = 0"
| "list_max [x] = x"
| "list_max (x # y # zs) = max x (list_max (y # zs))"

definition min_prompt_size :: "gen_args \<Rightarrow> nat" where
  "min_prompt_size a = list_min (map length (prompts a))"

definition max_prompt_size :: "gen_args \<Rightarrow> nat" where
  "max_prompt_size a = list_max (map length (prompts a))"

definition total_len :: "config \<Rightarrow> gen_args \<Rightarrow> nat" where
  "total_len cfg a = min (max_seq_len cfg) (max_gen_len a + max_prompt_size a)"

definition fill_row :: "token list \<Rightarrow> token list \<Rightarrow> error + token list" where
  \<comment> \<open>\<^verbatim>\<open>tokens[k, :len(t)] = torch.tensor(t).long()\<close>: \<^verbatim>\<open>torch.tensor\<close> refuses a token
      outside the 64-bit range; the slice is clipped to the row; the value must have the
      slice's length, or one element, which is broadcast\<close>
  "fill_row row t =
     (if \<not> list_all is_int64 t then Inl RuntimeError
      else
        (let w = min (length t) (length row)
         in if length t = w then Inr (t @ drop w row)
            else if length t = 1 then Inr (replicate w (hd t) @ drop w row)
            else Inl RuntimeError))"

fun fill_prompts :: "nat \<Rightarrow> token \<Rightarrow> grid \<Rightarrow> error + grid" where
  \<comment> \<open>the loop that writes the prompts, each into its row of pad values\<close>
  "fill_prompts n pad [] = Inr []"
| "fill_prompts n pad (t # ts) =
     (case fill_row (replicate n pad) t of
        Inl e \<Rightarrow> Inl e
      | Inr r \<Rightarrow> (case fill_prompts n pad ts of Inl e \<Rightarrow> Inl e | Inr rs \<Rightarrow> Inr (r # rs)))"

definition init_tokens :: "config \<Rightarrow> gen_args \<Rightarrow> error + grid" where
  \<comment> \<open>\<^verbatim>\<open>torch.full((bsz, total_len), pad_id).long()\<close>, which refuses a pad value outside
      the 64-bit range, and the loop that writes the prompts\<close>
  "init_tokens cfg a =
     (if \<not> is_int64 (pad_id cfg) then Inl RuntimeError
      else fill_prompts (total_len cfg a) (pad_id cfg) (prompts a))"

definition input_text_mask :: "config \<Rightarrow> grid \<Rightarrow> mask" where
  \<comment> \<open>\<^verbatim>\<open>tokens != self.tokenizer.pad_id\<close>\<close>
  "input_text_mask cfg toks = map (map (\<lambda>t. t \<noteq> pad_id cfg)) toks"

fun run_segments ::
  "('p, 'm, 'lg) net \<Rightarrow> config \<Rightarrow> gen_args \<Rightarrow> mask \<Rightarrow> nat \<Rightarrow> grid list
     \<Rightarrow> 'lg option \<times> ('p, 'm) mstate \<Rightarrow> error + 'lg option \<times> ('p, 'm) mstate" where
  \<comment> \<open>\<^verbatim>\<open>for i in range(len(tokens_segs))\<close>, with \<^verbatim>\<open>local_start_pos\<close>\<close>
  "run_segments net cfg a itm lsp [] r = Inr r"
| "run_segments net cfg a itm lsp (seg # segs) (lg, st) =
     (if lsp = 0 then
        (case prompt_mask_segmented (segment_size a) (hyper_input_type a)
                (hyper_input_spans a) itm of
           Inl e \<Rightarrow> Inl e
         | Inr pm \<Rightarrow>
             (case forward_inference net cfg seg lsp (Some pm) st of
                Inl e \<Rightarrow> Inl e
              | Inr (lg', st') \<Rightarrow>
                  run_segments net cfg a itm (lsp + width seg) segs (Some lg', st')))
      else
        (case forward_inference net cfg seg lsp None st of
           Inl e \<Rightarrow> Inl e
         | Inr (lg', st') \<Rightarrow>
             run_segments net cfg a itm (lsp + width seg) segs (Some lg', st')))"

definition forward_step ::
  "('p, 'm, 'lg) net \<Rightarrow> config \<Rightarrow> gen_args \<Rightarrow> mask \<Rightarrow> nat \<Rightarrow> ('p, 'm) loop_state
     \<Rightarrow> error + 'lg \<times> ('p, 'm) mstate" where
  \<comment> \<open>the block under \<^verbatim>\<open>with torch.cuda.amp.autocast()\<close>\<close>
  "forward_step net cfg a itm cur_pos ls =
     (let sl = map (slice_py (prev_pos ls) cur_pos) (tokens ls)
      in if need_segment (prev_pos ls) cur_pos (segment_size a) then
           (case py_range (segment_size a) (width sl) (segment_size a) of
              Inl e \<Rightarrow> Inl e
            | Inr idxs \<Rightarrow>
                (case run_segments net cfg a itm 0 (tensor_split 0 idxs sl) (None, model ls) of
                   Inl e \<Rightarrow> Inl e
                 | Inr (None, st) \<Rightarrow> Inl UnboundLocalError
                 | Inr (Some lg, st) \<Rightarrow> Inr (lg, st)))
         else if prev_pos ls = 0 then
           (case prompt_mask_whole (prev_pos ls) cur_pos (hyper_input_type a)
                   (hyper_input_spans a) itm of
              Inl e \<Rightarrow> Inl e
            | Inr pm \<Rightarrow> forward_inference net cfg sl (prev_pos ls) (Some pm) (model ls))
         else forward_inference net cfg sl (prev_pos ls) None (model ls))"

definition where_prompt :: "mask \<Rightarrow> grid \<Rightarrow> nat \<Rightarrow> token list \<Rightarrow> token list" where
  \<comment> \<open>\<^verbatim>\<open>torch.where(input_text_mask[:, cur_pos], tokens[:, cur_pos], next_token)\<close>\<close>
  "where_prompt itm toks cur_pos sampled =
     map (\<lambda>((mrow, trow), s). if mrow ! cur_pos then trow ! cur_pos else s)
       (zip (zip itm toks) sampled)"

definition write_column :: "nat \<Rightarrow> token list \<Rightarrow> grid \<Rightarrow> grid" where
  \<comment> \<open>\<^verbatim>\<open>tokens[:, cur_pos] = next_token\<close>\<close>
  "write_column cur_pos next_token toks = map (\<lambda>(row, t). row[cur_pos := t]) (zip toks next_token)"

definition decode_step ::
  "('p, 'm, 'lg) net \<Rightarrow> config \<Rightarrow> gen_args \<Rightarrow> mask \<Rightarrow> nat \<Rightarrow> ('p, 'm) loop_state
     \<Rightarrow> error + ('p, 'm) loop_state \<times> bool" where
  \<comment> \<open>one iteration of \<^verbatim>\<open>for cur_pos in range(start_pos, total_len)\<close>; the flag is the
      \<^verbatim>\<open>break\<close>, taken before \<^verbatim>\<open>prev_pos = cur_pos\<close>\<close>
  "decode_step net cfg a itm cur_pos ls =
     (case forward_step net cfg a itm cur_pos ls of
        Inl e \<Rightarrow> Inl e
      | Inr (logits, st) \<Rightarrow>
          (let bsz = length (prompts a);
               sampled = map (sample net cur_pos logits) [0..<bsz];
               next_token = where_prompt itm (tokens ls) cur_pos sampled;
               stop = (bsz = 1 \<and> hd next_token = eos_id cfg)
           in Inr (ls\<lparr>tokens := write_column cur_pos next_token (tokens ls),
                       prev_pos := (if stop then prev_pos ls else cur_pos),
                       model := st,
                       steps := steps ls @ [(cur_pos, sampled, next_token)]\<rparr>, stop)))"

fun decode_loop ::
  "('p, 'm, 'lg) net \<Rightarrow> config \<Rightarrow> gen_args \<Rightarrow> mask \<Rightarrow> nat list \<Rightarrow> ('p, 'm) loop_state
     \<Rightarrow> error + ('p, 'm) loop_state" where
  "decode_loop net cfg a itm [] ls = Inr ls"
| "decode_loop net cfg a itm (cur_pos # rest) ls =
     (case decode_step net cfg a itm cur_pos ls of
        Inl e \<Rightarrow> Inl e
      | Inr (ls', stop) \<Rightarrow> if stop then Inr ls' else decode_loop net cfg a itm rest ls')"

fun index_of :: "'a \<Rightarrow> 'a list \<Rightarrow> nat option" where
  \<comment> \<open>\<^verbatim>\<open>t.index(x)\<close>, \<open>None\<close> for \<^verbatim>\<open>ValueError\<close>\<close>
  "index_of x [] = None"
| "index_of x (y # ys) = (if y = x then Some 0 else map_option Suc (index_of x ys))"

definition cut_eos :: "token \<Rightarrow> token list \<Rightarrow> token list" where
  "cut_eos eos t = (case index_of eos t of Some i \<Rightarrow> take i t | None \<Rightarrow> t)"

definition finalize :: "('p, 'm, 'lg) net \<Rightarrow> config \<Rightarrow> gen_args \<Rightarrow> grid \<Rightarrow> string list" where
  "finalize net cfg a toks =
     map (\<lambda>(t, p). decode net
                     (cut_eos (eos_id cfg) (slice_py (length p) (length p + max_gen_len a) t)))
       (zip toks (prompts a))"

definition generate ::
  "('p, 'm, 'lg) net \<Rightarrow> config \<Rightarrow> gen_args \<Rightarrow> ('p, 'm) mstate \<Rightarrow> error + ('p, 'm) gen_result" where
  \<comment> \<open>\<open>st0\<close> is the model as the call finds it; the call starts with an empty memory\<close>
  "generate net cfg a st0 =
     (if \<not> length (prompts a) \<le> max_batch_size cfg then Inl AssertionError
      else if prompts a = [] then Inl ValueError
      else
        (case init_tokens cfg a of
           Inl e \<Rightarrow> Inl e
         | Inr toks \<Rightarrow>
             (let itm = input_text_mask cfg toks;
                  ls0 = \<lparr>tokens = toks, prev_pos = 0,
                         model = st0\<lparr>memory := empty_memory net, trace := []\<rparr>, steps = []\<rparr>
              in case decode_loop net cfg a itm [min_prompt_size a..<total_len cfg a] ls0 of
                   Inl e \<Rightarrow> Inl e
                 | Inr ls \<Rightarrow> Inr \<lparr>decoded = finalize net cfg a (tokens ls), final = ls\<rparr>)))"

subsection \<open>Reading the trace\<close>

fun hyper_calls :: "event list \<Rightarrow> (nat \<times> nat option) list" where
  \<comment> \<open>the calls of the hypernetwork in a trace: \<^verbatim>\<open>start_pos\<close> of the forward call around
      each, and its \<^verbatim>\<open>hyper_index\<close>\<close>
  "hyper_calls [] = []"
| "hyper_calls (HyperNet sp i pl # es) = (sp, i) # hyper_calls es"
| "hyper_calls (HyperNetNone sp # es) = (sp, None) # hyper_calls es"
| "hyper_calls (Forward sp n pm # es) = hyper_calls es"
| "hyper_calls (ApplyLora l # es) = hyper_calls es"

fun forward_calls :: "event list \<Rightarrow> (nat \<times> nat) list" where
  \<comment> \<open>the forward calls in a trace: \<^verbatim>\<open>start_pos\<close> and sequence length\<close>
  "forward_calls [] = []"
| "forward_calls (Forward sp n pm # es) = (sp, n) # forward_calls es"
| "forward_calls (HyperNet sp i pl # es) = forward_calls es"
| "forward_calls (HyperNetNone sp # es) = forward_calls es"
| "forward_calls (ApplyLora l # es) = forward_calls es"

fun seg_calls :: "nat \<Rightarrow> nat list \<Rightarrow> (nat \<times> nat) list" where
  \<comment> \<open>consecutive forward calls: the first starts at \<open>lsp\<close>, each has the given sequence
      length and the next starts where it ends\<close>
  "seg_calls lsp [] = []"
| "seg_calls lsp (w # ws) = (lsp, w) # seg_calls (lsp + w) ws"

fun hyper_inputs :: "event list \<Rightarrow> pooled list" where
  \<comment> \<open>the pooled vectors the hypernetwork was called on\<close>
  "hyper_inputs [] = []"
| "hyper_inputs (HyperNet sp i pl # es) = pl # hyper_inputs es"
| "hyper_inputs (HyperNetNone sp # es) = hyper_inputs es"
| "hyper_inputs (Forward sp n pm # es) = hyper_inputs es"
| "hyper_inputs (ApplyLora l # es) = hyper_inputs es"

definition later_calls :: "event list \<Rightarrow> bool" where
  \<comment> \<open>events of forward calls with a positive \<^verbatim>\<open>start_pos\<close> and without any call of the
      hypernetwork\<close>
  "later_calls evs \<longleftrightarrow> hyper_calls evs = [] \<and> list_all (\<lambda>c. 0 < fst c) (forward_calls evs)"

definition policy_calls :: "config \<Rightarrow> (nat \<times> nat option) list" where
  \<comment> \<open>the calls of the hypernetwork that one forward call with \<^verbatim>\<open>start_pos == 0\<close> makes\<close>
  "policy_calls cfg =
     (if hyper_enabled cfg then
        (if serial_generate cfg then map (\<lambda>j. (0, Some j)) [0..<length (hyper_layers cfg)]
         else [(0, None)])
      else [])"

text \<open>
  The hidden states that a forward call with \<^verbatim>\<open>start_pos == 0\<close> pools, in the order of
  the calls of the hypernetwork. Under the serial policy they are the hidden states at
  the top of each iteration of the loop over the hyper-adapted layers: each \<open>h\<close> is
  pooled, the layer gets the parameters generated from it, and the layer maps \<open>h\<close> to the
  next one. Under the parallel policy it is the hidden states that leave the layers
  before the first hyper-adapted one.
\<close>

fun serial_hidden ::
  "('p, 'm, 'lg) net \<Rightarrow> nat \<Rightarrow> mask option \<Rightarrow> nat \<Rightarrow> nat list \<Rightarrow> hidden \<times> ('p, 'm) mstate
     \<Rightarrow> hidden list" where
  "serial_hidden net d pm i [] hs = []"
| "serial_hidden net d pm i (l # ls) hs =
     fst hs # serial_hidden net d pm (Suc i) ls (serial_layers net d 0 pm i [l] hs)"

definition pooled_hidden ::
  "('p, 'm, 'lg) net \<Rightarrow> config \<Rightarrow> grid \<Rightarrow> mask option \<Rightarrow> ('p, 'm) mstate \<Rightarrow> hidden list" where
  "pooled_hidden net cfg toks pm st0 =
     (let st1 = st0\<lparr>trace := trace st0 @ [Forward 0 (width toks) pm]\<rparr>;
          hs = run_layers net 0 pm (pre_layers cfg) (tok_embeddings net toks, st1)
      in if \<not> hyper_enabled cfg then []
         else if serial_generate cfg then
           serial_hidden net (hidden_dim cfg) pm 0 (hyper_layers cfg) hs
         else [fst hs])"

subsection \<open>Concrete instances\<close>

text \<open>
  A small model for evaluating the definitions: three layers that leave the hidden states
  as they are, the last two of them hyper-adapted, exact arithmetic, and a sampler that
  draws the token 7 before position 5 and the end-of-sequence token 1 from there on.
\<close>

definition demo_net :: "(nat, nat, nat) net" where
  "demo_net =
     \<lparr>tok_embeddings = (\<lambda>g. map (map (\<lambda>t. [Fin (of_int t)])) g),
      layer = (\<lambda>l p h sp pm m. (h, Suc m)),
      hyper_all = (\<lambda>pl hi. hi),
      hyper_one = (\<lambda>pl i. i),
      hyper_none = Inl TypeError,
      rounding = Fin,
      norm_output = (\<lambda>h. length h),
      zero_loss = (\<lambda>h. 0),
      train_loss = (\<lambda>h l. Inr 1),
      sample = (\<lambda>cur lg k. if cur < 5 then 7 else 1),
      decode = (\<lambda>ts. concat (map (\<lambda>t. if t = 7 then ''g'' else ''?'') ts)),
      empty_memory = 0\<rparr>"

definition demo_cfg :: config where
  "demo_cfg =
     \<lparr>n_layers = 3, hyper_lora_start = Some 1, serial_generate = True, hidden_dim = 1,
      vocab_size = 32000, max_batch_size = 4, max_seq_len = 16, pad_id = 0, eos_id = 1\<rparr>"

definition demo_cfg_parallel :: config where
  "demo_cfg_parallel = demo_cfg\<lparr>serial_generate := False\<rparr>"

definition demo_cfg_short :: config where
  \<comment> \<open>a model with room for two positions\<close>
  "demo_cfg_short = demo_cfg\<lparr>max_seq_len := 2\<rparr>"

definition demo_cfg_empty :: config where
  \<comment> \<open>a model without room for any position\<close>
  "demo_cfg_empty = demo_cfg\<lparr>max_seq_len := 0\<rparr>"

definition demo_args :: gen_args where
  \<comment> \<open>one prompt of three tokens, segments of two positions\<close>
  "demo_args =
     \<lparr>prompts = [[5, 9, 2]], max_gen_len = 5, segment_size = 2,
      hyper_input_type = ''document'', hyper_input_spans = []\<rparr>"

definition demo_args_batch :: gen_args where
  \<comment> \<open>two prompts of different lengths\<close>
  "demo_args_batch =
     \<lparr>prompts = [[5, 9], [4]], max_gen_len = 5, segment_size = 2,
      hyper_input_type = ''document'', hyper_input_spans = []\<rparr>"

definition demo_args_span :: gen_args where
  \<comment> \<open>the instruction policy with a span that ends beyond the segment size, on a prompt
      that needs no segmentation\<close>
  "demo_args_span =
     \<lparr>prompts = [[5, 9, 2]], max_gen_len = 1, segment_size = 4,
      hyper_input_type = ''instruction'', hyper_input_spans = [(0, 10)]\<rparr>"

definition demo_args_span_segmented :: gen_args where
  \<comment> \<open>the same span on a prompt that is segmented\<close>
  "demo_args_span_segmented = demo_args_span\<lparr>segment_size := 2\<rparr>"

definition demo_args_no_span :: gen_args where
  \<comment> \<open>the instruction policy with an empty span: nothing is unmasked\<close>
  "demo_args_no_span = demo_args_span\<lparr>hyper_input_spans := [(0, 0)]\<rparr>"

definition demo_args_one :: gen_args where
  \<comment> \<open>one prompt of one token\<close>
  "demo_args_one =
     \<lparr>prompts = [[5]], max_gen_len = 1, segment_size = 2,
      hyper_input_type = ''document'', hyper_input_spans = []\<rparr>"

definition demo_args_no_decode :: gen_args where
  \<comment> \<open>nothing to generate: the grid ends where the prompt ends\<close>
  "demo_args_no_decode = demo_args\<lparr>max_gen_len := 0\<rparr>"

definition demo_args_big :: gen_args where
  \<comment> \<open>a token that is no 64-bit integer, in a prompt that fits the grid\<close>
  "demo_args_big = demo_args\<lparr>prompts := [[9223372036854775808]]\<rparr>"

definition demo_cfg_start0 :: config where
  \<comment> \<open>all three layers are hyper-adapted: \<^verbatim>\<open>hyper_lora_start\<close> is the index 0\<close>
  "demo_cfg_start0 = demo_cfg\<lparr>hyper_lora_start := Some 0\<rparr>"

definition demo_st :: "(nat, nat) mstate" where
  "demo_st = \<lparr>lora = (\<lambda>_. None), memory = 0, pooling_states = None, trace = []\<rparr>"

definition demo_st_cached :: "(nat, nat) mstate" where
  \<comment> \<open>a model that has cached a pooled vector\<close>
  "demo_st_cached = demo_st\<lparr>pooling_states := Some [[Fin 3]]\<rparr>"

section \<open>Evaluation on concrete inputs\<close>

lemma replicate_numeral: "replicate (numeral k) x = x # replicate (pred_numeral k) x"
  by (simp add: numeral_eq_Suc)

lemmas eval_defs = generate_def init_tokens_def total_len_def max_prompt_size_def
  min_prompt_size_def fill_row_def input_text_mask_def decode_step_def forward_step_def
  need_segment_def py_range_def slice_py_def width_def forward_inference_def
  hyper_block_inference_def hyper_enabled_def hyper_layers_def pre_layers_def
  prompt_mask_segmented_def prompt_mask_whole_def is_instruction_def zeros_like_def
  masked_mean_pool_def pool_row_def fsum_def mask_float_def mask_of_def where_prompt_def
  write_column_def finalize_def cut_eos_def set_span_def slice_bound_def
  forward_def hyper_block_train_def pooled_hidden_def is_int64_def wrap64_def upt_conv_Cons
  Let_def
  replicate_numeral

lemmas demo_defs = demo_net_def demo_cfg_def demo_cfg_parallel_def demo_cfg_empty_def demo_cfg_short_def
  demo_args_def demo_args_batch_def demo_args_span_def demo_args_span_segmented_def
  demo_args_no_span_def demo_args_one_def demo_args_no_decode_def demo_args_big_def
  demo_cfg_start0_def demo_st_def demo_st_cached_def

lemma demo_run:
  "\<exists>r. generate demo_net demo_cfg demo_args demo_st = Inr r \<and>
     tokens (final r) = [[5, 9, 2, 7, 7, 1, 0, 0]] \<and>
     steps (final r) = [(3, [7], [7]), (4, [7], [7]), (5, [1], [1])] \<and>
     hyper_calls (trace (model (final r))) = [(0, Some 0), (0, Some 1)] \<and>
     forward_calls (trace (model (final r))) = [(0, 2), (2, 1), (3, 1), (4, 1)]"
  by (simp add: eval_defs demo_defs del: upt_Suc)

lemma demo_run_batch:
  "\<exists>r. generate demo_net demo_cfg_parallel demo_args_batch demo_st = Inr r \<and>
     tokens (final r) = [[5, 9, 7, 7, 7, 1, 1], [4, 7, 7, 7, 7, 1, 1]] \<and>
     steps (final r) =
       [(1, [7, 7], [9, 7]), (2, [7, 7], [7, 7]), (3, [7, 7], [7, 7]), (4, [7, 7], [7, 7]),
        (5, [1, 1], [1, 1]), (6, [1, 1], [1, 1])] \<and>
     hyper_calls (trace (model (final r))) = [(0, None)]"
  by (simp add: eval_defs demo_defs del: upt_Suc)

lemma demo_init: "init_tokens demo_cfg demo_args = Inr [[5, 9, 2, 0, 0, 0, 0, 0]]"
  by (simp add: eval_defs demo_defs)

lemma demo_init_batch:
  "init_tokens demo_cfg_parallel demo_args_batch = Inr [[5, 9, 0, 0, 0, 0, 0], [4, 0, 0, 0, 0, 0, 0]]"
  by (simp add: eval_defs demo_defs)

lemma demo_run_parallel:
  "\<exists>r. generate demo_net demo_cfg_parallel demo_args demo_st = Inr r \<and>
     trace (model (final r)) =
       [Forward 0 2 (Some [[True, True]]), HyperNet 0 None [[Fin 7]], ApplyLora 1, ApplyLora 2,
        Forward 2 1 None, Forward 3 1 None, Forward 4 1 None]"
  by (simp add: eval_defs demo_defs del: upt_Suc)

section \<open>The split of the prefill range\<close>

lemma width_map_rows:
  "g \<noteq> [] \<Longrightarrow> \<forall>r\<in>set g. length (f r) = n \<Longrightarrow> width (map f g) = n"
  by (cases g) (simp_all add: width_def)

lemma rows_width:
  "r \<in> set g \<Longrightarrow> \<forall>r\<in>set g. length r = n \<Longrightarrow> width g = n"
  by (cases g) (auto simp: width_def)

lemma tensor_split_concat:
  "k < length g \<Longrightarrow> sorted (lo # idxs) \<Longrightarrow>
     concat (map (\<lambda>c. c ! k) (tensor_split lo idxs g)) = drop lo (g ! k)"
proof (induction idxs arbitrary: lo)
  case Nil
  then show ?case by simp
next
  case (Cons i idxs)
  have "lo \<le> i" using Cons.prems by simp
  have "sorted (i # idxs)" using Cons.prems by simp
  from Cons.IH [OF Cons.prems(1) this]
  have "concat (map (\<lambda>c. c ! k) (tensor_split i idxs g)) = drop i (g ! k)" .
  moreover have "drop lo (take i (g ! k)) @ drop i (g ! k) = drop lo (g ! k)"
  proof -
    have "drop lo (take i (g ! k) @ drop i (g ! k))
            = drop lo (take i (g ! k)) @ drop (lo - length (take i (g ! k))) (drop i (g ! k))"
      by (rule drop_append)
    moreover have "drop (lo - length (take i (g ! k))) (drop i (g ! k)) = drop i (g ! k)"
      using \<open>lo \<le> i\<close> by (cases "i \<le> length (g ! k)") (simp_all add: min_def)
    ultimately show ?thesis by simp
  qed
  ultimately show ?case using Cons.prems(1) by (simp add: slice_py_def)
qed

lemma range_indices_Suc:
  "map (\<lambda>k. lo + S + k * S) [0..<Suc n] = (lo + S) # map (\<lambda>k. (lo + S) + S + k * S) [0..<n]"
proof -
  have "[0..<Suc n] = 0 # map Suc [0..<n]"
    by (simp add: upt_conv_Cons map_Suc_upt del: upt_Suc)
  then show ?thesis by (simp add: o_def add.assoc)
qed

lemma tensor_split_widths:
  assumes "g \<noteq> []" and "\<forall>r\<in>set g. length r = L"
  shows "lo + n * S \<le> L \<Longrightarrow>
     map width (tensor_split lo (map (\<lambda>k. lo + S + k * S) [0..<n]) g)
       = replicate n S @ [L - (lo + n * S)]"
proof (induction n arbitrary: lo)
  case 0
  then show ?case using assms by (simp add: width_map_rows)
next
  case (Suc n)
  have le: "(lo + S) + n * S \<le> L" using Suc.prems by (simp add: add.assoc add.commute)
  have w: "width (map (slice_py lo (lo + S)) g) = S"
    using assms le by (intro width_map_rows) (auto simp: slice_py_def)
  show ?case
    unfolding range_indices_Suc using Suc.IH [OF le] w
    by (simp add: add.assoc add.commute)
qed

lemma range_count:
  assumes "0 < (S::nat)" and "S < L"
  shows "((L - S + (S - 1)) div S) * S < L" and "L - ((L - S + (S - 1)) div S) * S \<le> S"
proof -
  have e: "L - S + (S - 1) = L - 1" using assms by arith
  have "(L - 1) div S * S \<le> L - 1" by simp
  moreover have "L - 1 < L" using assms by arith
  ultimately show "((L - S + (S - 1)) div S) * S < L" unfolding e by (rule le_less_trans)
  have "L - 1 < S + (L - 1) div S * S" using assms(1) by (rule dividend_less_div_times)
  then show "L - ((L - S + (S - 1)) div S) * S \<le> S" unfolding e by arith
qed


lemma sorted_range_indices: "sorted (lo # map (\<lambda>k. lo + S + k * S) [0..<n])"
proof -
  have "sorted (map (\<lambda>k. lo + S + k * S) [0..<n])"
    by (rule sorted_map_mono) (auto simp: mono_on_def)
  then show ?thesis by auto
qed

lemma segment_chunks:
  fixes g :: "'a list list"
  assumes "0 < S" and "g \<noteq> []" and "\<forall>r\<in>set g. length r = L"
  shows "(need_segment 0 L S \<longrightarrow>
            (\<exists>idxs. py_range S (width g) S = Inr idxs \<and>
               sum_list (map width (tensor_split 0 idxs g)) = L \<and>
               (\<forall>c\<in>set (tensor_split 0 idxs g). width c \<le> S) \<and>
               (\<forall>c\<in>set (butlast (tensor_split 0 idxs g)). width c = S) \<and>
               (\<forall>k<length g. concat (map (\<lambda>c. c ! k) (tensor_split 0 idxs g)) = g ! k) \<and>
               (L = S + 1 \<longrightarrow> map width (tensor_split 0 idxs g) = [S, 1]))) \<and>
         (\<not> need_segment 0 L S \<longrightarrow> width g = L \<and> L \<le> S) \<and>
         \<not> need_segment 0 S S \<and> need_segment 0 (S + 1) S"
proof -
  have wg: "width g = L" using assms(2,3) by (cases g) (simp_all add: width_def)
  define n where "n = (L - S + (S - 1)) div S"
  define idxs where "idxs = map (\<lambda>k. 0 + S + k * S) [0..<n]"
  have seg: ?thesis if "S < L"
  proof -
    have nS: "n * S < L" and rest: "L - n * S \<le> S"
      using range_count [OF assms(1) that] unfolding n_def by blast+
    have r: "py_range S (width g) S = Inr idxs"
      using assms(1) by (simp add: py_range_def wg idxs_def n_def)
    have w: "map width (tensor_split 0 idxs g) = replicate n S @ [L - n * S]"
      unfolding idxs_def using tensor_split_widths [OF assms(2,3), of 0 n S] nS by simp
    have c: "\<forall>k<length g. concat (map (\<lambda>c. c ! k) (tensor_split 0 idxs g)) = g ! k"
      unfolding idxs_def using tensor_split_concat [OF _ sorted_range_indices, of _ g 0 S n]
      by simp
    have s: "sum_list (map width (tensor_split 0 idxs g)) = L"
      unfolding w using nS by (simp add: sum_list_replicate)
    have ws: "set (map width (tensor_split 0 idxs g)) \<subseteq> {S, L - n * S}"
      unfolding w by auto
    have b1: "\<forall>c\<in>set (tensor_split 0 idxs g). width c \<le> S"
      using ws rest by auto
    have "map width (butlast (tensor_split 0 idxs g)) = butlast (map width (tensor_split 0 idxs g))"
      by (rule map_butlast)
    then have "map width (butlast (tensor_split 0 idxs g)) = replicate n S"
      unfolding w by simp
    then have "set (map width (butlast (tensor_split 0 idxs g))) \<subseteq> {S}"
      by auto
    then have b2: "\<forall>c\<in>set (butlast (tensor_split 0 idxs g)). width c = S"
      by auto
    have e: "map width (tensor_split 0 idxs g) = [S, 1]" if "L = S + 1"
    proof -
      have "n = 1" using that assms(1) by (simp add: n_def)
      then show ?thesis using w that by simp
    qed
    show ?thesis
      using r s b1 b2 c e that by (auto simp: need_segment_def wg)
  qed
  show ?thesis
  proof (cases "S < L")
    case True
    then show ?thesis by (rule seg)
  next
    case False
    then show ?thesis by (simp add: need_segment_def wg)
  qed
qed

section \<open>The decoding loop\<close>

lemma where_prompt_length:
  "length itm = b \<Longrightarrow> length toks = b \<Longrightarrow> length s = b \<Longrightarrow>
     length (where_prompt itm toks p s) = b"
  by (simp add: where_prompt_def)

lemma where_prompt_nth:
  "length itm = b \<Longrightarrow> length toks = b \<Longrightarrow> length s = b \<Longrightarrow> k < b \<Longrightarrow>
     where_prompt itm toks p s ! k = (if itm ! k ! p then toks ! k ! p else s ! k)"
  by (simp add: where_prompt_def)

lemma write_column_length:
  "length w = length toks \<Longrightarrow> length (write_column p w toks) = length toks"
  by (simp add: write_column_def)

lemma write_column_nth:
  "length w = length toks \<Longrightarrow> k < length toks \<Longrightarrow>
     write_column p w toks ! k = (toks ! k)[p := w ! k]"
  by (simp add: write_column_def)

lemma decode_step_Inr:
  assumes "decode_step net cfg a itm p ls = Inr (ls1, stop)"
  obtains s lg where
    "forward_step net cfg a itm p ls = Inr (lg, model ls1)"
    "length s = length (prompts a)"
    "steps ls1 = steps ls @ [(p, s, where_prompt itm (tokens ls) p s)]"
    "tokens ls1 = write_column p (where_prompt itm (tokens ls) p s) (tokens ls)"
    "stop = (length (prompts a) = 1 \<and> hd (where_prompt itm (tokens ls) p s) = eos_id cfg)"
    "prev_pos ls1 = (if stop then prev_pos ls else p)"
  using assms
  by (auto simp: decode_step_def Let_def split: sum.splits prod.splits)


lemma decode_loop_run:
  assumes "decode_loop net cfg a itm ps ls = Inr ls'"
    and "length (tokens ls) = length (prompts a)"
    and "length itm = length (prompts a)"
    and "distinct ps"
  shows "\<exists>new. steps ls' = steps ls @ new
    \<and> length (tokens ls') = length (prompts a)
    \<and> (\<forall>k<length (prompts a). length (tokens ls' ! k) = length (tokens ls ! k))
    \<and> (\<exists>m\<le>length ps. map fst new = take m ps \<and>
          (m < length ps \<longrightarrow> length (prompts a) = 1 \<and> new \<noteq> [] \<and>
             hd (snd (snd (last new))) = eos_id cfg))
    \<and> (\<forall>e\<in>set (butlast new). \<not> (length (prompts a) = 1 \<and> hd (snd (snd e)) = eos_id cfg))
    \<and> (\<forall>e\<in>set new. length (fst (snd e)) = length (prompts a) \<and>
          length (snd (snd e)) = length (prompts a) \<and>
          (\<forall>k<length (prompts a).
             snd (snd e) ! k = (if itm ! k ! fst e then tokens ls ! k ! fst e else fst (snd e) ! k) \<and>
             (fst e < length (tokens ls ! k) \<longrightarrow> tokens ls' ! k ! fst e = snd (snd e) ! k)))
    \<and> (\<forall>k<length (prompts a). \<forall>q. q \<notin> fst ` set new \<longrightarrow> tokens ls' ! k ! q = tokens ls ! k ! q)"
  using assms
proof (induction ps arbitrary: ls)
  case Nil
  then show ?case by simp
next
  case (Cons p ps)
  let ?b = "length (prompts a)"
  from Cons.prems(1) obtain ls1 stop where
    st: "decode_step net cfg a itm p ls = Inr (ls1, stop)" and
    rest: "if stop then ls' = ls1 else decode_loop net cfg a itm ps ls1 = Inr ls'"
    by (auto split: sum.splits prod.splits if_splits)
  from st obtain s lg where
    ls: "length s = ?b" and
    ss: "steps ls1 = steps ls @ [(p, s, where_prompt itm (tokens ls) p s)]" and
    tk: "tokens ls1 = write_column p (where_prompt itm (tokens ls) p s) (tokens ls)" and
    sp: "stop = (?b = 1 \<and> hd (where_prompt itm (tokens ls) p s) = eos_id cfg)"
    by (rule decode_step_Inr)
  define w where "w = where_prompt itm (tokens ls) p s"
  have lw: "length w = ?b"
    unfolding w_def using Cons.prems(2,3) ls by (intro where_prompt_length) simp_all
  have wk: "w ! k = (if itm ! k ! p then tokens ls ! k ! p else s ! k)" if "k < ?b" for k
    unfolding w_def using Cons.prems(2,3) ls that by (intro where_prompt_nth) simp_all
  have l1: "length (tokens ls1) = ?b"
    unfolding tk w_def [symmetric] using lw Cons.prems(2) by (simp add: write_column_length)
  have r1: "tokens ls1 ! k = (tokens ls ! k)[p := w ! k]" if "k < ?b" for k
    unfolding tk w_def [symmetric] using lw Cons.prems(2) that by (simp add: write_column_nth)
  show ?case
  proof (cases stop)
    case True
    then have e: "ls' = ls1" using rest by simp
    have m: "\<exists>m\<le>length (p # ps). map fst [(p, s, w)] = take m (p # ps) \<and>
          (m < length (p # ps) \<longrightarrow> ?b = 1 \<and> [(p, s, w)] \<noteq> [] \<and>
             hd (snd (snd (last [(p, s, w)]))) = eos_id cfg)"
      using True sp by (intro exI [of _ 1]) (simp add: w_def)
    show ?thesis
      apply (rule exI [of _ "[(p, s, w)]"])
      using m ls lw wk r1 l1 ss e by (simp add: w_def [symmetric])
  next
    case False
    then have lp: "decode_loop net cfg a itm ps ls1 = Inr ls'" using rest by simp
    have d: "distinct ps" and pn: "p \<notin> set ps" using Cons.prems(4) by simp_all
    from Cons.IH [OF lp l1 Cons.prems(3) d] obtain new m where
      i1: "steps ls' = steps ls1 @ new" and
      i2: "length (tokens ls') = ?b" and
      i3: "\<forall>k<?b. length (tokens ls' ! k) = length (tokens ls1 ! k)" and
      i4: "m \<le> length ps" "map fst new = take m ps"
          "m < length ps \<longrightarrow> ?b = 1 \<and> new \<noteq> [] \<and> hd (snd (snd (last new))) = eos_id cfg" and
      i5: "\<forall>e\<in>set (butlast new). \<not> (?b = 1 \<and> hd (snd (snd e)) = eos_id cfg)" and
      i6: "\<forall>e\<in>set new. length (fst (snd e)) = ?b \<and> length (snd (snd e)) = ?b \<and>
            (\<forall>k<?b. snd (snd e) ! k =
                 (if itm ! k ! fst e then tokens ls1 ! k ! fst e else fst (snd e) ! k) \<and>
               (fst e < length (tokens ls1 ! k) \<longrightarrow> tokens ls' ! k ! fst e = snd (snd e) ! k))" and
      i7: "\<forall>k<?b. \<forall>q. q \<notin> fst ` set new \<longrightarrow> tokens ls' ! k ! q = tokens ls1 ! k ! q"
      by blast
    have sub: "fst ` set new \<subseteq> set ps"
    proof -
      have "fst ` set new = set (map fst new)" by simp
      also have "\<dots> \<subseteq> set ps" unfolding i4(2) by (rule set_take_subset)
      finally show ?thesis .
    qed
    then have pnew: "p \<notin> fst ` set new" using pn by blast
    have c1: "steps ls' = steps ls @ (p, s, w) # new"
      using i1 ss by (simp add: w_def)
    have c3: "\<forall>k<?b. length (tokens ls' ! k) = length (tokens ls ! k)"
      using i3 r1 by simp
    have c4: "\<exists>m\<le>length (p # ps). map fst ((p, s, w) # new) = take m (p # ps) \<and>
          (m < length (p # ps) \<longrightarrow> ?b = 1 \<and> (p, s, w) # new \<noteq> [] \<and>
             hd (snd (snd (last ((p, s, w) # new)))) = eos_id cfg)"
      using i4 by (intro exI [of _ "Suc m"]) auto
    have c5: "\<forall>e\<in>set (butlast ((p, s, w) # new)).
                \<not> (?b = 1 \<and> hd (snd (snd e)) = eos_id cfg)"
      using i5 False sp by (auto simp: w_def)
    have c6a: "length s = ?b \<and> length w = ?b \<and>
            (\<forall>k<?b. w ! k = (if itm ! k ! p then tokens ls ! k ! p else s ! k) \<and>
               (p < length (tokens ls ! k) \<longrightarrow> tokens ls' ! k ! p = w ! k))"
      using ls lw wk i7 pnew r1 by simp
    have c6b: "length (fst (snd e)) = ?b \<and> length (snd (snd e)) = ?b \<and>
            (\<forall>k<?b. snd (snd e) ! k =
                 (if itm ! k ! fst e then tokens ls ! k ! fst e else fst (snd e) ! k) \<and>
               (fst e < length (tokens ls ! k) \<longrightarrow> tokens ls' ! k ! fst e = snd (snd e) ! k))"
      if "e \<in> set new" for e
    proof -
      have "fst e \<noteq> p" using that pnew by auto
      then have "tokens ls1 ! k ! fst e = tokens ls ! k ! fst e" if "k < ?b" for k
        using r1 [OF that] by simp
      moreover have "length (tokens ls1 ! k) = length (tokens ls ! k)" if "k < ?b" for k
        using r1 [OF that] by simp
      ultimately show ?thesis using i6 that by simp
    qed
    have c7: "\<forall>k<?b. \<forall>q. q \<notin> fst ` set ((p, s, w) # new) \<longrightarrow>
                 tokens ls' ! k ! q = tokens ls ! k ! q"
      using i7 r1 by simp
    show ?thesis
      apply (rule exI [of _ "(p, s, w) # new"])
      using c1 i2 c3 c4 c5 c6a c6b c7 by simp
  qed
qed

section \<open>The token grid and the result\<close>

lemma list_max_Max: "xs \<noteq> [] \<Longrightarrow> list_max xs = Max (set xs)"
  by (induction xs rule: list_max.induct) simp_all

lemma list_min_Min: "xs \<noteq> [] \<Longrightarrow> list_min xs = Min (set xs)"
  by (induction xs rule: list_min.induct) simp_all

lemma list_max_ge: "x \<in> set xs \<Longrightarrow> x \<le> list_max xs"
  by (induction xs rule: list_max.induct) auto

lemma list_min_le: "x \<in> set xs \<Longrightarrow> list_min xs \<le> x"
  by (induction xs rule: list_min.induct) auto

lemma fill_row_cases:
  "fill_row (replicate n pad) t =
     (if \<not> list_all is_int64 t then Inl RuntimeError
      else if length t \<le> n then Inr (t @ replicate (n - length t) pad)
      else if length t = 1 then Inr []
      else Inl RuntimeError)"
  by (auto simp: fill_row_def Let_def min_def)

lemma fill_row_Inr_iff:
  "fill_row (replicate n pad) t = Inr r \<longleftrightarrow>
     list_all is_int64 t \<and>
     ((length t \<le> n \<and> r = t @ replicate (n - length t) pad) \<or>
      (n < length t \<and> length t = 1 \<and> r = []))"
proof (cases "list_all is_int64 t")
  case False
  then show ?thesis unfolding fill_row_cases by simp
next
  case ok: True
  show ?thesis
  proof (cases "length t \<le> n")
    case True
    then show ?thesis unfolding fill_row_cases using ok by auto
  next
    case False
    then show ?thesis unfolding fill_row_cases using ok by (cases "length t = 1") auto
  qed
qed

lemma fill_row_Inl_iff:
  "fill_row (replicate n pad) t = Inl e \<longleftrightarrow>
     (\<not> list_all is_int64 t \<or> n < length t \<and> length t \<noteq> 1) \<and> e = RuntimeError"
proof (cases "list_all is_int64 t")
  case False
  then show ?thesis unfolding fill_row_cases by auto
next
  case ok: True
  show ?thesis
  proof (cases "length t \<le> n")
    case True
    then show ?thesis unfolding fill_row_cases using ok by auto
  next
    case False
    then show ?thesis unfolding fill_row_cases using ok by (cases "length t = 1") auto
  qed
qed

lemma fill_prompts_Inr:
  "fill_prompts n pad ps = Inr g \<Longrightarrow>
     length g = length ps \<and> (\<forall>k<length ps. fill_row (replicate n pad) (ps ! k) = Inr (g ! k))"
proof (induction ps arbitrary: g)
  case Nil
  then show ?case by simp
next
  case (Cons t ts)
  then show ?case
    by (auto split: sum.splits simp: nth_Cons')
qed

lemma fill_prompts_Inl:
  "fill_prompts n pad ps = Inl e \<Longrightarrow>
     e = RuntimeError \<and>
     (\<exists>t\<in>set ps. \<not> list_all is_int64 t \<or> n < length t \<and> length t \<noteq> 1)"
proof (induction ps)
  case Nil
  then show ?case by simp
next
  case (Cons t ts)
  show ?case
  proof (cases "fill_row (replicate n pad) t")
    case (Inl e')
    then have "e' = e" using Cons.prems by simp
    then show ?thesis using Inl by (simp add: fill_row_Inl_iff)
  next
    case (Inr r)
    then have "fill_prompts n pad ts = Inl e"
      using Cons.prems by (simp split: sum.splits)
    then show ?thesis using Cons.IH by simp
  qed
qed

lemma fill_prompts_fails:
  "\<exists>t\<in>set ps. \<not> list_all is_int64 t \<or> n < length t \<and> length t \<noteq> 1 \<Longrightarrow>
     fill_prompts n pad ps = Inl RuntimeError"
proof (induction ps)
  case Nil
  then show ?case by simp
next
  case (Cons t ts)
  show ?case
  proof (cases "fill_row (replicate n pad) t")
    case (Inl e)
    then have "e = RuntimeError" by (simp add: fill_row_Inl_iff)
    with Inl show ?thesis by simp
  next
    case (Inr r)
    then have "\<not> (\<not> list_all is_int64 t \<or> n < length t \<and> length t \<noteq> 1)"
      unfolding fill_row_Inr_iff by linarith
    then have "\<exists>t\<in>set ts. \<not> list_all is_int64 t \<or> n < length t \<and> length t \<noteq> 1"
      using Cons.prems by auto
    then have "fill_prompts n pad ts = Inl RuntimeError" by (rule Cons.IH)
    then show ?thesis using Inr by simp
  qed
qed

lemma init_tokens_Inr:
  assumes "init_tokens cfg a = Inr g"
  shows "is_int64 (pad_id cfg)"
    and "fill_prompts (total_len cfg a) (pad_id cfg) (prompts a) = Inr g"
  using assms by (simp_all add: init_tokens_def split: if_splits)

lemma init_tokens_shape:
  assumes "init_tokens cfg a = Inr g"
  shows "length g = length (prompts a)"
    and "k < length (prompts a) \<Longrightarrow> length (g ! k) = total_len cfg a"
    and "k < length (prompts a) \<Longrightarrow> p < total_len cfg a \<Longrightarrow>
           g ! k ! p = (if p < length (prompts a ! k) then prompts a ! k ! p else pad_id cfg)"
proof -
  note f = fill_prompts_Inr [OF init_tokens_Inr(2) [OF assms]]
  show "length g = length (prompts a)" using f by simp
  have row: "(length (prompts a ! k) \<le> total_len cfg a \<and>
        g ! k = prompts a ! k @ replicate (total_len cfg a - length (prompts a ! k)) (pad_id cfg)) \<or>
       (total_len cfg a < length (prompts a ! k) \<and> length (prompts a ! k) = 1 \<and> g ! k = [])"
    if "k < length (prompts a)"
  proof -
    have "fill_row (replicate (total_len cfg a) (pad_id cfg)) (prompts a ! k) = Inr (g ! k)"
      using f that by simp
    then show ?thesis unfolding fill_row_Inr_iff by (rule conjunct2)
  qed
  show "length (g ! k) = total_len cfg a" if "k < length (prompts a)"
    using row [OF that] by auto
  show "g ! k ! p = (if p < length (prompts a ! k) then prompts a ! k ! p else pad_id cfg)"
    if "k < length (prompts a)" "p < total_len cfg a"
  proof -
    have "g ! k = prompts a ! k @ replicate (total_len cfg a - length (prompts a ! k)) (pad_id cfg)"
      using row [OF that(1)] that(2) by auto
    then show ?thesis using that(2) by (simp add: nth_append)
  qed
qed

lemma index_of_cut: "cut_eos eos t = takeWhile (\<lambda>x. x \<noteq> eos) t"
proof -
  have "(case index_of eos t of Some i \<Rightarrow> take i t | None \<Rightarrow> t) = takeWhile (\<lambda>x. x \<noteq> eos) t"
    by (induction t) (auto split: option.splits)
  then show ?thesis by (simp add: cut_eos_def)
qed

lemma slice_py_take_drop: "slice_py a (a + n) xs = take n (drop a xs)"
  by (simp add: slice_py_def drop_take)

lemma generate_Inr:
  assumes "generate net cfg a st0 = Inr r"
  obtains g where
    "init_tokens cfg a = Inr g"
    "prompts a \<noteq> []"
    "length (prompts a) \<le> max_batch_size cfg"
    "decode_loop net cfg a (input_text_mask cfg g) [min_prompt_size a..<total_len cfg a]
       \<lparr>tokens = g, prev_pos = 0, model = st0\<lparr>memory := empty_memory net, trace := []\<rparr>,
        steps = []\<rparr> = Inr (final r)"
    "decoded r = finalize net cfg a (tokens (final r))"
proof -
  from assms have ne: "prompts a \<noteq> []" and le: "length (prompts a) \<le> max_batch_size cfg"
    by (auto simp: generate_def split: if_splits)
  from assms ne le obtain g where g: "init_tokens cfg a = Inr g"
    by (cases "init_tokens cfg a") (simp_all add: generate_def)
  from assms ne le g obtain ls where
    "decode_loop net cfg a (input_text_mask cfg g) [min_prompt_size a..<total_len cfg a]
       \<lparr>tokens = g, prev_pos = 0, model = st0\<lparr>memory := empty_memory net, trace := []\<rparr>,
        steps = []\<rparr> = Inr ls"
    and "r = \<lparr>decoded = finalize net cfg a (tokens ls), final = ls\<rparr>"
    by (auto simp: generate_def Let_def split: sum.splits)
  then show thesis using that [OF g ne le] by simp
qed

lemma generate_run:
  assumes "generate net cfg a st0 = Inr r" and "init_tokens cfg a = Inr g"
  shows "length (tokens (final r)) = length (prompts a)"
    and "\<forall>k<length (prompts a). length (tokens (final r) ! k) = total_len cfg a"
    and "\<exists>m. min_prompt_size a + m \<le> max (min_prompt_size a) (total_len cfg a) \<and>
           map fst (steps (final r)) = [min_prompt_size a..<min_prompt_size a + m] \<and>
           (min_prompt_size a + m < total_len cfg a \<longrightarrow>
              length (prompts a) = 1 \<and> steps (final r) \<noteq> [] \<and>
              hd (snd (snd (last (steps (final r))))) = eos_id cfg)"
    and "\<forall>e\<in>set (butlast (steps (final r))).
           \<not> (length (prompts a) = 1 \<and> hd (snd (snd e)) = eos_id cfg)"
    and "\<forall>e\<in>set (steps (final r)). length (fst (snd e)) = length (prompts a) \<and>
          length (snd (snd e)) = length (prompts a) \<and>
          (\<forall>k<length (prompts a).
             snd (snd e) ! k =
               (if input_text_mask cfg g ! k ! fst e then g ! k ! fst e else fst (snd e) ! k) \<and>
             tokens (final r) ! k ! fst e = snd (snd e) ! k)"
    and "\<forall>k<length (prompts a). \<forall>q. q \<notin> fst ` set (steps (final r)) \<longrightarrow>
           tokens (final r) ! k ! q = g ! k ! q"
proof -
  let ?ls0 = "\<lparr>tokens = g, prev_pos = 0, model = st0\<lparr>memory := empty_memory net, trace := []\<rparr>,
        steps = []\<rparr>"
  let ?ps = "[min_prompt_size a..<total_len cfg a]"
  from assms(1) obtain g' where "init_tokens cfg a = Inr g'" and
    "decode_loop net cfg a (input_text_mask cfg g') ?ps
       \<lparr>tokens = g', prev_pos = 0, model = st0\<lparr>memory := empty_memory net, trace := []\<rparr>,
        steps = []\<rparr> = Inr (final r)"
    by (rule generate_Inr)
  with assms(2) have lp: "decode_loop net cfg a (input_text_mask cfg g) ?ps ?ls0 = Inr (final r)"
    by simp
  have lg: "length g = length (prompts a)" using assms(2) by (rule init_tokens_shape)
  have rows: "length (g ! k) = total_len cfg a" if "k < length (prompts a)" for k
    using assms(2) that by (rule init_tokens_shape)
  have "length (tokens ?ls0) = length (prompts a)" using lg by simp
  moreover have "length (input_text_mask cfg g) = length (prompts a)"
    using lg by (simp add: input_text_mask_def)
  moreover have "distinct ?ps" by simp
  ultimately obtain new m where
    n1: "steps (final r) = steps ?ls0 @ new" and
    n2: "length (tokens (final r)) = length (prompts a)" and
    n3: "\<forall>k<length (prompts a). length (tokens (final r) ! k) = length (tokens ?ls0 ! k)" and
    n4: "m \<le> length ?ps" "map fst new = take m ?ps"
         "m < length ?ps \<longrightarrow> length (prompts a) = 1 \<and> new \<noteq> [] \<and>
             hd (snd (snd (last new))) = eos_id cfg" and
    n5: "\<forall>e\<in>set (butlast new). \<not> (length (prompts a) = 1 \<and> hd (snd (snd e)) = eos_id cfg)" and
    n6: "\<forall>e\<in>set new. length (fst (snd e)) = length (prompts a) \<and>
          length (snd (snd e)) = length (prompts a) \<and>
          (\<forall>k<length (prompts a).
             snd (snd e) ! k = (if input_text_mask cfg g ! k ! fst e then tokens ?ls0 ! k ! fst e
                                else fst (snd e) ! k) \<and>
             (fst e < length (tokens ?ls0 ! k) \<longrightarrow> tokens (final r) ! k ! fst e = snd (snd e) ! k))" and
    n7: "\<forall>k<length (prompts a). \<forall>q. q \<notin> fst ` set new \<longrightarrow>
           tokens (final r) ! k ! q = tokens ?ls0 ! k ! q"
    using decode_loop_run [OF lp] by blast
  have st: "steps (final r) = new" using n1 by simp
  show "length (tokens (final r)) = length (prompts a)" by (rule n2)
  show "\<forall>k<length (prompts a). length (tokens (final r) ! k) = total_len cfg a"
    using n3 rows by simp
  have tk: "take m ?ps = [min_prompt_size a..<min_prompt_size a + m]"
  proof (cases "m = 0")
    case True
    then show ?thesis by simp
  next
    case False
    then have "min_prompt_size a + m \<le> total_len cfg a" using n4(1) by simp
    then show ?thesis by (rule take_upt)
  qed
  show "\<exists>m. min_prompt_size a + m \<le> max (min_prompt_size a) (total_len cfg a) \<and>
           map fst (steps (final r)) = [min_prompt_size a..<min_prompt_size a + m] \<and>
           (min_prompt_size a + m < total_len cfg a \<longrightarrow>
              length (prompts a) = 1 \<and> steps (final r) \<noteq> [] \<and>
              hd (snd (snd (last (steps (final r))))) = eos_id cfg)"
    using n4 tk unfolding st by (intro exI [of _ m]) auto
  show "\<forall>e\<in>set (butlast (steps (final r))).
           \<not> (length (prompts a) = 1 \<and> hd (snd (snd e)) = eos_id cfg)"
    using n5 unfolding st .
  have inr: "fst e < total_len cfg a" if "e \<in> set new" for e
  proof -
    have "fst e \<in> set (map fst new)" using that by simp
    then have "fst e \<in> set ?ps" unfolding n4(2) by (rule in_set_takeD)
    then show ?thesis by simp
  qed
  show "\<forall>e\<in>set (steps (final r)). length (fst (snd e)) = length (prompts a) \<and>
          length (snd (snd e)) = length (prompts a) \<and>
          (\<forall>k<length (prompts a).
             snd (snd e) ! k =
               (if input_text_mask cfg g ! k ! fst e then g ! k ! fst e else fst (snd e) ! k) \<and>
             tokens (final r) ! k ! fst e = snd (snd e) ! k)"
    unfolding st using n6 inr rows by simp
  show "\<forall>k<length (prompts a). \<forall>q. q \<notin> fst ` set (steps (final r)) \<longrightarrow>
           tokens (final r) ! k ! q = g ! k ! q"
    unfolding st using n7 by simp
qed

lemma total_len_Max:
  "prompts a \<noteq> [] \<Longrightarrow>
     total_len cfg a = min (max_seq_len cfg) (max_gen_len a + Max (length ` set (prompts a)))"
  by (simp add: total_len_def max_prompt_size_def list_max_Max)

text \<open>
  Claim C9. In every call of \<^verbatim>\<open>generate\<close> that returns, the grid that was allocated and the
  grid at the end have one row for each prompt and exactly
  \<open>min max_seq_len (max_gen_len + longest prompt)\<close> columns, and the text returned for
  sequence \<open>i\<close> is the decoding of the row's slice of at most \<open>max_gen_len\<close> tokens that
  starts right after the length of prompt \<open>i\<close>, cut before the first end-of-sequence token
  when the slice holds one.
\<close>

theorem generate_grid_and_result:
  assumes "generate net cfg a st0 = Inr r"
  shows "(\<exists>g. init_tokens cfg a = Inr g \<and> length g = length (prompts a) \<and>
            (\<forall>row\<in>set g. length row =
               min (max_seq_len cfg) (max_gen_len a + Max (length ` set (prompts a))))) \<and>
         length (tokens (final r)) = length (prompts a) \<and>
         (\<forall>row\<in>set (tokens (final r)). length row =
            min (max_seq_len cfg) (max_gen_len a + Max (length ` set (prompts a)))) \<and>
         length (decoded r) = length (prompts a) \<and>
         (\<forall>i<length (prompts a). decoded r ! i =
            decode net (takeWhile (\<lambda>x. x \<noteq> eos_id cfg)
              (take (max_gen_len a) (drop (length (prompts a ! i)) (tokens (final r) ! i)))))"
proof -
  from assms obtain g where g: "init_tokens cfg a = Inr g" and ne: "prompts a \<noteq> []"
    and d: "decoded r = finalize net cfg a (tokens (final r))"
    by (rule generate_Inr)
  note n = total_len_Max [OF ne, of cfg, symmetric]
  have lg: "length g = length (prompts a)" using g by (rule init_tokens_shape)
  have rg: "\<forall>row\<in>set g. length row = total_len cfg a"
    using init_tokens_shape(2) [OF g] lg by (auto simp: in_set_conv_nth)
  have lt: "length (tokens (final r)) = length (prompts a)"
    using assms g by (rule generate_run)
  have rt: "\<forall>row\<in>set (tokens (final r)). length row = total_len cfg a"
    using generate_run(2) [OF assms g] lt by (auto simp: in_set_conv_nth)
  have ld: "length (decoded r) = length (prompts a)"
    using lt by (simp add: d finalize_def)
  have dd: "decoded r ! i = decode net (takeWhile (\<lambda>x. x \<noteq> eos_id cfg)
              (take (max_gen_len a) (drop (length (prompts a ! i)) (tokens (final r) ! i))))"
    if "i < length (prompts a)" for i
    using that lt by (simp add: d finalize_def index_of_cut slice_py_take_drop)
  show ?thesis
    unfolding n using g lg rg lt rt ld dd by blast
qed

theorem generate_grid_and_result_witness:
  "\<exists>r. generate demo_net demo_cfg demo_args demo_st = Inr r \<and>
     length (tokens (final r)) = 1 \<and> length (tokens (final r) ! 0) = 8 \<and>
     decoded r = [''gg'']"
proof -
  from demo_run obtain r where
    r: "generate demo_net demo_cfg demo_args demo_st = Inr r" and
    t: "tokens (final r) = [[5, 9, 2, 7, 7, 1, 0, 0]]"
    by blast
  have "length (decoded r) = 1 \<and> decoded r ! 0 = ''gg''"
    using generate_grid_and_result [OF r] t by (simp add: demo_defs)
  then have "decoded r = [''gg'']"
    by (cases "decoded r") simp_all
  then show ?thesis using r t by auto
qed

lemma input_text_mask_nth:
  "k < length g \<Longrightarrow> p < length (g ! k) \<Longrightarrow>
     input_text_mask cfg g ! k ! p \<longleftrightarrow> g ! k ! p \<noteq> pad_id cfg"
  by (simp add: input_text_mask_def)

lemma step_position_in_range:
  assumes "generate net cfg a st0 = Inr r" and "init_tokens cfg a = Inr g"
    and "e \<in> set (steps (final r))"
  shows "min_prompt_size a \<le> fst e \<and> fst e < total_len cfg a"
proof -
  from generate_run(3) [OF assms(1,2)] obtain m where
    m: "min_prompt_size a + m \<le> max (min_prompt_size a) (total_len cfg a)" and
    s: "map fst (steps (final r)) = [min_prompt_size a..<min_prompt_size a + m]"
    by blast
  have "fst e \<in> set (map fst (steps (final r)))" using assms(3) by simp
  then have "min_prompt_size a \<le> fst e \<and> fst e < min_prompt_size a + m"
    unfolding s by simp
  then show ?thesis using m by auto
qed

text \<open>
  Claim C8. In every call of \<^verbatim>\<open>generate\<close> that returns, for every decoding step (an entry
  of \<open>steps\<close>: position, sampled tokens, written tokens) and every sequence \<open>k\<close>: if the
  position is marked as a prompt token in \<^verbatim>\<open>input_text_mask\<close>, it lies inside prompt \<open>k\<close>,
  and the token written at the step, which is the token of the final grid there, is the
  prompt's token, whatever the sampler drew.
\<close>

theorem prompt_tokens_kept:
  assumes "generate net cfg a st0 = Inr r" and "init_tokens cfg a = Inr g"
  shows "\<forall>e\<in>set (steps (final r)). \<forall>k<length (prompts a).
           input_text_mask cfg g ! k ! fst e \<longrightarrow>
             fst e < length (prompts a ! k) \<and>
             snd (snd e) ! k = prompts a ! k ! fst e \<and>
             tokens (final r) ! k ! fst e = prompts a ! k ! fst e"
proof (intro ballI allI impI)
  fix e k
  assume e: "e \<in> set (steps (final r))" and k: "k < length (prompts a)"
    and marked: "input_text_mask cfg g ! k ! fst e"
  have p: "fst e < total_len cfg a"
    using step_position_in_range [OF assms e] by simp
  have lg: "length g = length (prompts a)" using assms(2) by (rule init_tokens_shape)
  have row: "length (g ! k) = total_len cfg a" using assms(2) k by (rule init_tokens_shape)
  have cell: "g ! k ! fst e =
      (if fst e < length (prompts a ! k) then prompts a ! k ! fst e else pad_id cfg)"
    using assms(2) k p by (rule init_tokens_shape)
  have "g ! k ! fst e \<noteq> pad_id cfg"
    using marked input_text_mask_nth [of k g "fst e" cfg] k lg row p by simp
  then have inp: "fst e < length (prompts a ! k)" and v: "g ! k ! fst e = prompts a ! k ! fst e"
    using cell by (auto split: if_splits)
  have "snd (snd e) ! k = g ! k ! fst e \<and> tokens (final r) ! k ! fst e = snd (snd e) ! k"
    using generate_run(5) [OF assms] e k marked by simp
  then show "fst e < length (prompts a ! k) \<and>
             snd (snd e) ! k = prompts a ! k ! fst e \<and>
             tokens (final r) ! k ! fst e = prompts a ! k ! fst e"
    using inp v by simp
qed

theorem prompt_tokens_kept_witness:
  "\<exists>r g. generate demo_net demo_cfg_parallel demo_args_batch demo_st = Inr r \<and>
     init_tokens demo_cfg_parallel demo_args_batch = Inr g \<and>
     (1, [7, 7], [9, 7]) \<in> set (steps (final r)) \<and>
     input_text_mask demo_cfg_parallel g ! 0 ! 1 \<and>
     tokens (final r) ! 0 ! 1 = 9 \<and> prompts demo_args_batch ! 0 ! 1 = 9"
proof -
  from demo_run_batch obtain r where
    r: "generate demo_net demo_cfg_parallel demo_args_batch demo_st = Inr r" and
    s: "steps (final r) =
       [(1, [7, 7], [9, 7]), (2, [7, 7], [7, 7]), (3, [7, 7], [7, 7]), (4, [7, 7], [7, 7]),
        (5, [1, 1], [1, 1]), (6, [1, 1], [1, 1])]"
    by blast
  have e: "(1, [7, 7], [9, 7]) \<in> set (steps (final r))" unfolding s by simp
  have m: "input_text_mask demo_cfg_parallel [[5, 9, 0, 0, 0, 0, 0], [4, 0, 0, 0, 0, 0, 0]] ! 0 ! 1"
    by (simp add: input_text_mask_def demo_defs)
  have k: "0 < length (prompts demo_args_batch)" by (simp add: demo_defs)
  have "tokens (final r) ! 0 ! 1 = prompts demo_args_batch ! 0 ! 1"
    using prompt_tokens_kept [OF r demo_init_batch, THEN bspec, OF e, THEN spec, THEN mp, OF k] m
    by simp
  moreover have "prompts demo_args_batch ! 0 ! 1 = 9" by (simp add: demo_defs)
  ultimately show ?thesis using r demo_init_batch e m by auto
qed

lemma single_prompt_min: "length (prompts a) = 1 \<Longrightarrow> min_prompt_size a = length (prompts a ! 0)"
  by (cases "prompts a") (simp_all add: min_prompt_size_def)

text \<open>
  Claim C7. In every call of \<^verbatim>\<open>generate\<close> that returns: with a single prompt, every step
  writes the token the sampler drew, and a step whose sampled token is the end-of-sequence
  token is the last step of the loop, so that every later position of the grid still holds
  the pad value; with more than one prompt the loop steps through every position from
  \<open>min_prompt_size\<close> to \<open>total_len - 1\<close>, whatever is sampled.
\<close>

theorem early_stop:
  assumes "generate net cfg a st0 = Inr r"
  shows "(length (prompts a) = 1 \<longrightarrow>
            (\<forall>i<length (steps (final r)).
               snd (snd (steps (final r) ! i)) = fst (snd (steps (final r) ! i)) \<and>
               (hd (fst (snd (steps (final r) ! i))) = eos_id cfg \<longrightarrow>
                  Suc i = length (steps (final r)) \<and>
                  (\<forall>q. fst (steps (final r) ! i) < q \<and> q < total_len cfg a \<longrightarrow>
                     tokens (final r) ! 0 ! q = pad_id cfg)))) \<and>
         (length (prompts a) \<noteq> 1 \<longrightarrow>
            map fst (steps (final r)) = [min_prompt_size a..<total_len cfg a])"
proof -
  from assms obtain g where g: "init_tokens cfg a = Inr g" by (rule generate_Inr)
  let ?st = "steps (final r)"
  let ?mn = "min_prompt_size a"
  let ?n = "total_len cfg a"
  from generate_run(3) [OF assms g] obtain m where
    m: "?mn + m \<le> max ?mn ?n" and
    s: "map fst ?st = [?mn..<?mn + m]" and
    stop: "?mn + m < ?n \<longrightarrow> length (prompts a) = 1 \<and> ?st \<noteq> [] \<and>
              hd (snd (snd (last ?st))) = eos_id cfg"
    by blast
  have lm: "length ?st = m"
  proof -
    have "length (map fst ?st) = length [?mn..<?mn + m]" by (simp only: s)
    then show ?thesis by simp
  qed
  have batch: "map fst ?st = [?mn..<?n]" if "length (prompts a) \<noteq> 1"
  proof -
    have "\<not> ?mn + m < ?n" using stop that by blast
    then have "[?mn..<?mn + m] = [?mn..<?n]" using m by (cases "?mn \<le> ?n") auto
    then show ?thesis using s by simp
  qed
  have single: "snd (snd (?st ! i)) = fst (snd (?st ! i)) \<and>
               (hd (fst (snd (?st ! i))) = eos_id cfg \<longrightarrow>
                  Suc i = length ?st \<and>
                  (\<forall>q. fst (?st ! i) < q \<and> q < ?n \<longrightarrow> tokens (final r) ! 0 ! q = pad_id cfg))"
    if one: "length (prompts a) = 1" and i: "i < length ?st" for i
  proof -
    define e where "e = ?st ! i"
    have e: "e \<in> set ?st" using i by (simp add: e_def)
    have pe: "fst e = ?mn + i"
    proof -
      have "fst e = map fst ?st ! i" using i by (simp add: e_def)
      also have "\<dots> = ?mn + i" unfolding s using i lm by simp
      finally show ?thesis .
    qed
    have rng: "?mn \<le> fst e \<and> fst e < ?n" using assms g e by (rule step_position_in_range)
    have mn: "?mn = length (prompts a ! 0)" using one by (rule single_prompt_min)
    have k0: "0 < length (prompts a)" using one by simp
    have lg: "length g = length (prompts a)" using g by (rule init_tokens_shape)
    have row: "length (g ! 0) = ?n" using g k0 by (rule init_tokens_shape)
    have pad: "g ! 0 ! q = pad_id cfg" if "?mn \<le> q" "q < ?n" for q
      using init_tokens_shape(3) [OF g k0 that(2)] that(1) mn by simp
    have unmarked: "\<not> input_text_mask cfg g ! 0 ! fst e"
      using input_text_mask_nth [of 0 g "fst e" cfg] k0 lg row rng pad by simp
    have ent: "length (fst (snd e)) = 1 \<and> length (snd (snd e)) = 1 \<and>
               snd (snd e) ! 0 = fst (snd e) ! 0"
      using generate_run(5) [OF assms g] e k0 unmarked one by simp
    then have same: "snd (snd e) = fst (snd e)"
      by (intro nth_equalityI) simp_all
    have last: "Suc i = length ?st" if eos: "hd (fst (snd e)) = eos_id cfg"
    proof (rule ccontr)
      assume "Suc i \<noteq> length ?st"
      then have "i < length (butlast ?st)" using i by simp
      then have "butlast ?st ! i \<in> set (butlast ?st)" by (rule nth_mem)
      moreover have "butlast ?st ! i = e"
        using \<open>i < length (butlast ?st)\<close> by (simp add: nth_butlast e_def)
      ultimately have "e \<in> set (butlast ?st)" by simp
      then have "\<not> (length (prompts a) = 1 \<and> hd (snd (snd e)) = eos_id cfg)"
        using generate_run(4) [OF assms g] by blast
      then show False using one eos same by simp
    qed
    have rest: "tokens (final r) ! 0 ! q = pad_id cfg"
      if eos: "hd (fst (snd e)) = eos_id cfg" and q: "fst e < q" "q < ?n" for q
    proof -
      have "Suc i = m" using last [OF eos] lm by simp
      then have "?mn + m \<le> q" using q(1) pe by simp
      then have "q \<notin> set (map fst ?st)" unfolding s by simp
      then have "q \<notin> fst ` set ?st" by simp
      then have "tokens (final r) ! 0 ! q = g ! 0 ! q"
        using generate_run(6) [OF assms g] k0 by blast
      moreover have "?mn \<le> q" using q(1) rng by simp
      ultimately show ?thesis using pad q(2) by simp
    qed
    have "snd (snd e) = fst (snd e) \<and>
               (hd (fst (snd e)) = eos_id cfg \<longrightarrow>
                  Suc i = length ?st \<and>
                  (\<forall>q. fst e < q \<and> q < ?n \<longrightarrow> tokens (final r) ! 0 ! q = pad_id cfg))"
    proof (intro conjI impI allI)
      show "snd (snd e) = fst (snd e)" by (rule same)
    next
      assume "hd (fst (snd e)) = eos_id cfg"
      then show "Suc i = length ?st" by (rule last)
    next
      fix q
      assume "hd (fst (snd e)) = eos_id cfg" and "fst e < q \<and> q < ?n"
      then show "tokens (final r) ! 0 ! q = pad_id cfg" using rest by simp
    qed
    then show ?thesis unfolding e_def .
  qed
  have c1: "length (prompts a) = 1 \<longrightarrow>
            (\<forall>i<length ?st.
               snd (snd (?st ! i)) = fst (snd (?st ! i)) \<and>
               (hd (fst (snd (?st ! i))) = eos_id cfg \<longrightarrow>
                  Suc i = length ?st \<and>
                  (\<forall>q. fst (?st ! i) < q \<and> q < ?n \<longrightarrow>
                     tokens (final r) ! 0 ! q = pad_id cfg)))"
  proof (intro impI allI)
    fix i
    assume "length (prompts a) = 1" and "i < length ?st"
    then show "snd (snd (?st ! i)) = fst (snd (?st ! i)) \<and>
               (hd (fst (snd (?st ! i))) = eos_id cfg \<longrightarrow>
                  Suc i = length ?st \<and>
                  (\<forall>q. fst (?st ! i) < q \<and> q < ?n \<longrightarrow> tokens (final r) ! 0 ! q = pad_id cfg))"
      by (rule single)
  qed
  have c2: "length (prompts a) \<noteq> 1 \<longrightarrow> map fst ?st = [?mn..<?n]"
    using batch by (rule impI)
  show ?thesis using c1 c2 by (rule conjI)
qed


theorem early_stop_witness:
  "(\<exists>r. generate demo_net demo_cfg demo_args demo_st = Inr r \<and>
      length (steps (final r)) = 3 \<and>
      hd (fst (snd (steps (final r) ! 2))) = eos_id demo_cfg \<and>
      tokens (final r) ! 0 ! 6 = pad_id demo_cfg \<and> tokens (final r) ! 0 ! 7 = pad_id demo_cfg) \<and>
   (\<exists>r. generate demo_net demo_cfg_parallel demo_args_batch demo_st = Inr r \<and>
      (5, [1, 1], [1, 1]) \<in> set (steps (final r)) \<and>
      map fst (steps (final r)) = [1, 2, 3, 4, 5, 6])"
proof -
  from demo_run obtain r where
    r: "generate demo_net demo_cfg demo_args demo_st = Inr r" and
    s: "steps (final r) = [(3, [7], [7]), (4, [7], [7]), (5, [1], [1])]"
    by blast
  have one: "length (prompts demo_args) = 1" by (simp add: demo_defs)
  have n: "total_len demo_cfg demo_args = 8" by (simp add: eval_defs demo_defs)
  have i: "2 < length (steps (final r))" unfolding s by simp
  have eos: "hd (fst (snd (steps (final r) ! 2))) = eos_id demo_cfg"
    unfolding s by (simp add: demo_defs)
  have p: "fst (steps (final r) ! 2) = 5" unfolding s by simp
  have w: "\<forall>q. fst (steps (final r) ! 2) < q \<and> q < total_len demo_cfg demo_args \<longrightarrow>
            tokens (final r) ! 0 ! q = pad_id demo_cfg"
    using early_stop [OF r] one i eos by blast
  have t6: "tokens (final r) ! 0 ! 6 = pad_id demo_cfg" using w p n by simp
  have t7: "tokens (final r) ! 0 ! 7 = pad_id demo_cfg" using w p n by simp
  have l: "length (steps (final r)) = 3" unfolding s by simp
  have first: "\<exists>r. generate demo_net demo_cfg demo_args demo_st = Inr r \<and>
      length (steps (final r)) = 3 \<and>
      hd (fst (snd (steps (final r) ! 2))) = eos_id demo_cfg \<and>
      tokens (final r) ! 0 ! 6 = pad_id demo_cfg \<and> tokens (final r) ! 0 ! 7 = pad_id demo_cfg"
    using r l eos t6 t7 by (intro exI [of _ r]) simp
  from demo_run_batch obtain r' where
    r': "generate demo_net demo_cfg_parallel demo_args_batch demo_st = Inr r'" and
    s': "steps (final r') =
       [(1, [7, 7], [9, 7]), (2, [7, 7], [7, 7]), (3, [7, 7], [7, 7]), (4, [7, 7], [7, 7]),
        (5, [1, 1], [1, 1]), (6, [1, 1], [1, 1])]"
    by blast
  have two: "length (prompts demo_args_batch) \<noteq> 1" by (simp add: demo_defs)
  have "map fst (steps (final r')) =
          [min_prompt_size demo_args_batch..<total_len demo_cfg_parallel demo_args_batch]"
    using early_stop [OF r'] two by blast
  also have "\<dots> = [1, 2, 3, 4, 5, 6]"
    by (simp add: eval_defs demo_defs del: upt_Suc)
  finally have m: "map fst (steps (final r')) = [1, 2, 3, 4, 5, 6]" .
  have e: "(5, [1, 1], [1, 1]) \<in> set (steps (final r'))" unfolding s' by simp
  have second: "\<exists>r. generate demo_net demo_cfg_parallel demo_args_batch demo_st = Inr r \<and>
      (5, [1, 1], [1, 1]) \<in> set (steps (final r)) \<and>
      map fst (steps (final r)) = [1, 2, 3, 4, 5, 6]"
    using r' e m by (intro exI [of _ r']) simp
  show ?thesis using first second by (rule conjI)
qed

text \<open>
  Claim C10, amended. \<^verbatim>\<open>generate\<close> does not truncate prompts. For a batch that passes the
  entry checks: if some prompt is longer than \<open>total_len\<close> and has more than one token, or
  if some token or the pad value is no 64-bit integer, building the grid raises, and the
  call fails before any decoding; if every prompt is at most \<open>total_len\<close> long and every
  token and the pad value are 64-bit integers, the write succeeds and every row is the
  prompt followed by pad values.
\<close>

theorem prompt_length_precondition:
  assumes "prompts a \<noteq> []" and "length (prompts a) \<le> max_batch_size cfg"
  shows "((\<exists>t\<in>set (prompts a). total_len cfg a < length t \<and> length t \<noteq> 1) \<or>
          (\<exists>t\<in>set (prompts a). \<not> list_all is_int64 t) \<or> \<not> is_int64 (pad_id cfg) \<longrightarrow>
            init_tokens cfg a = Inl RuntimeError \<and> generate net cfg a st0 = Inl RuntimeError) \<and>
         ((\<forall>t\<in>set (prompts a). length t \<le> total_len cfg a \<and> list_all is_int64 t) \<and>
          is_int64 (pad_id cfg) \<longrightarrow>
            (\<exists>g. init_tokens cfg a = Inr g \<and> length g = length (prompts a) \<and>
               (\<forall>k<length (prompts a).
                  g ! k = prompts a ! k @
                    replicate (total_len cfg a - length (prompts a ! k)) (pad_id cfg))))"
proof (rule conjI; rule impI)
  assume bad: "(\<exists>t\<in>set (prompts a). total_len cfg a < length t \<and> length t \<noteq> 1) \<or>
          (\<exists>t\<in>set (prompts a). \<not> list_all is_int64 t) \<or> \<not> is_int64 (pad_id cfg)"
  have i: "init_tokens cfg a = Inl RuntimeError"
  proof (cases "is_int64 (pad_id cfg)")
    case False
    then show ?thesis by (simp add: init_tokens_def)
  next
    case True
    then have "\<exists>t\<in>set (prompts a). \<not> list_all is_int64 t \<or>
        total_len cfg a < length t \<and> length t \<noteq> 1"
      using bad by blast
    then have "fill_prompts (total_len cfg a) (pad_id cfg) (prompts a) = Inl RuntimeError"
      by (rule fill_prompts_fails)
    then show ?thesis using True by (simp add: init_tokens_def)
  qed
  then have "generate net cfg a st0 = Inl RuntimeError"
    using assms by (simp add: generate_def)
  with i show "init_tokens cfg a = Inl RuntimeError \<and> generate net cfg a st0 = Inl RuntimeError"
    by simp
next
  assume "(\<forall>t\<in>set (prompts a). length t \<le> total_len cfg a \<and> list_all is_int64 t) \<and>
          is_int64 (pad_id cfg)"
  then have fit: "\<forall>t\<in>set (prompts a). length t \<le> total_len cfg a \<and> list_all is_int64 t"
    and pad: "is_int64 (pad_id cfg)"
    by simp_all
  obtain g where f0: "fill_prompts (total_len cfg a) (pad_id cfg) (prompts a) = Inr g"
  proof (cases "fill_prompts (total_len cfg a) (pad_id cfg) (prompts a)")
    case (Inl e)
    then have "\<exists>t\<in>set (prompts a). \<not> list_all is_int64 t \<or>
        total_len cfg a < length t \<and> length t \<noteq> 1"
      by (rule fill_prompts_Inl [THEN conjunct2])
    then show ?thesis using fit by auto
  next
    case (Inr g)
    then show ?thesis by (rule that)
  qed
  have g: "init_tokens cfg a = Inr g" using f0 pad by (simp add: init_tokens_def)
  note f = fill_prompts_Inr [OF f0]
  have "g ! k = prompts a ! k @ replicate (total_len cfg a - length (prompts a ! k)) (pad_id cfg)"
    if "k < length (prompts a)" for k
  proof -
    have "fill_row (replicate (total_len cfg a) (pad_id cfg)) (prompts a ! k) = Inr (g ! k)"
      using f that by simp
    moreover have "length (prompts a ! k) \<le> total_len cfg a" using fit that by simp
    ultimately show ?thesis unfolding fill_row_Inr_iff by simp
  qed
  then show "\<exists>g. init_tokens cfg a = Inr g \<and> length g = length (prompts a) \<and>
               (\<forall>k<length (prompts a).
                  g ! k = prompts a ! k @
                    replicate (total_len cfg a - length (prompts a ! k)) (pad_id cfg))"
    using g f by simp
qed

theorem prompt_length_precondition_witness:
  "generate demo_net demo_cfg_short demo_args demo_st = Inl RuntimeError \<and>
   generate demo_net demo_cfg demo_args_big demo_st = Inl RuntimeError \<and>
   (\<exists>g. init_tokens demo_cfg demo_args = Inr g \<and> g ! 0 = [5, 9, 2, 0, 0, 0, 0, 0])"
proof -
  have ne: "prompts demo_args \<noteq> []" and ne': "prompts demo_args_big \<noteq> []"
    by (simp_all add: demo_defs)
  have b: "length (prompts demo_args) \<le> max_batch_size demo_cfg_short"
    and b': "length (prompts demo_args) \<le> max_batch_size demo_cfg"
    and b'': "length (prompts demo_args_big) \<le> max_batch_size demo_cfg"
    by (simp_all add: demo_defs)
  have n: "total_len demo_cfg_short demo_args = 2" and n': "total_len demo_cfg demo_args = 8"
    by (simp_all add: eval_defs demo_defs)
  have long: "\<exists>t\<in>set (prompts demo_args).
      total_len demo_cfg_short demo_args < length t \<and> length t \<noteq> 1"
    unfolding n by (simp add: demo_defs)
  have big: "\<exists>t\<in>set (prompts demo_args_big). \<not> list_all is_int64 t"
    by (simp add: demo_defs is_int64_def)
  have fit: "(\<forall>t\<in>set (prompts demo_args).
       length t \<le> total_len demo_cfg demo_args \<and> list_all is_int64 t) \<and>
     is_int64 (pad_id demo_cfg)"
    unfolding n' by (simp add: demo_defs is_int64_def)
  have "generate demo_net demo_cfg_short demo_args demo_st = Inl RuntimeError"
    using prompt_length_precondition [OF ne b, of demo_net demo_st] long by blast
  moreover have "generate demo_net demo_cfg demo_args_big demo_st = Inl RuntimeError"
    using prompt_length_precondition [OF ne' b'', of demo_net demo_st] big by blast
  moreover have "\<exists>g. init_tokens demo_cfg demo_args = Inr g \<and> g ! 0 = [5, 9, 2, 0, 0, 0, 0, 0]"
    using prompt_length_precondition [OF ne b', of demo_net demo_st] fit
    unfolding n' by (auto simp: demo_defs replicate_numeral)
  ultimately show ?thesis by simp
qed

text \<open>
  Claim C10 as stated fails in both directions. For a prompt of one token the assignment
  broadcasts a one-element tensor into the clipped slice, so with \<open>total_len = 0\<close> the
  write succeeds although the prompt is longer than \<open>total_len\<close>, and the call returns.
  And a prompt that is not longer than \<open>total_len\<close> still makes the write fail when one
  of its tokens is no 64-bit integer.
\<close>

theorem one_token_prompt_broadcast:
  "total_len demo_cfg_empty demo_args_one < length (prompts demo_args_one ! 0) \<and>
   init_tokens demo_cfg_empty demo_args_one = Inr [[]] \<and>
   \<not> isl (generate demo_net demo_cfg_empty demo_args_one demo_st) \<and>
   length (prompts demo_args_big ! 0) \<le> total_len demo_cfg demo_args_big \<and>
   init_tokens demo_cfg demo_args_big = Inl RuntimeError"
  by (simp add: eval_defs demo_defs)

section \<open>Calls of the hypernetwork\<close>

lemma hyper_calls_append: "hyper_calls (xs @ ys) = hyper_calls xs @ hyper_calls ys"
  by (induction xs rule: hyper_calls.induct) simp_all

lemma forward_calls_append: "forward_calls (xs @ ys) = forward_calls xs @ forward_calls ys"
  by (induction xs rule: forward_calls.induct) simp_all

lemma hyper_inputs_append: "hyper_inputs (xs @ ys) = hyper_inputs xs @ hyper_inputs ys"
  by (induction xs rule: hyper_inputs.induct) simp_all

lemma hyper_inputs_none: "hyper_calls xs = [] \<Longrightarrow> hyper_inputs xs = []"
  by (induction xs rule: hyper_calls.induct) simp_all

lemma later_calls_Nil: "later_calls []"
  by (simp add: later_calls_def)

lemma later_calls_append: "later_calls (xs @ ys) \<longleftrightarrow> later_calls xs \<and> later_calls ys"
  by (auto simp: later_calls_def hyper_calls_append forward_calls_append)

lemma later_calls_Forward: "0 < sp \<Longrightarrow> later_calls [Forward sp n pm]"
  by (simp add: later_calls_def)

lemma run_layers_keeps:
  "trace (snd (run_layers net sp pm ls hs)) = trace (snd hs) \<and>
   lora (snd (run_layers net sp pm ls hs)) = lora (snd hs) \<and>
   pooling_states (snd (run_layers net sp pm ls hs)) = pooling_states (snd hs)"
proof (induction ls arbitrary: hs)
  case Nil
  then show ?case by simp
next
  case (Cons l ls)
  obtain h st where hs: "hs = (h, st)" by (cases hs)
  obtain h' m' where l: "layer net l (lora st l) h sp pm (memory st) = (h', m')"
    by (cases "layer net l (lora st l) h sp pm (memory st)")
  show ?case using Cons.IH [of "(h', st\<lparr>memory := m'\<rparr>)"] by (simp add: hs l)
qed

lemma serial_layers_later:
  "0 < sp \<Longrightarrow>
     trace (snd (serial_layers net d sp pm i ls hs)) = trace (snd hs) \<and>
     lora (snd (serial_layers net d sp pm i ls hs)) = lora (snd hs)"
proof (induction ls arbitrary: hs i)
  case Nil
  then show ?case by simp
next
  case (Cons l ls)
  obtain h st where hs: "hs = (h, st)" by (cases hs)
  obtain h' m' where l: "layer net l (lora st l) h sp pm (memory st) = (h', m')"
    by (cases "layer net l (lora st l) h sp pm (memory st)")
  show ?case
    using Cons.IH [OF Cons.prems, of "Suc i" "(h', st\<lparr>memory := m'\<rparr>)"] Cons.prems
    by (simp add: hs l)
qed

lemma upt_shift: "i # [Suc i..<Suc (i + n)] = [i..<Suc (i + n)]"
  by (simp add: upt_conv_Cons del: upt_Suc)

lemma serial_layers_first:
  "\<exists>evs. trace (snd (serial_layers net d 0 pm i ls hs)) = trace (snd hs) @ evs \<and>
     forward_calls evs = [] \<and>
     hyper_calls evs = map (\<lambda>j. (0, Some j)) [i..<i + length ls] \<and>
     hyper_inputs evs =
       map (\<lambda>h. masked_mean_pool (rounding net) d h (mask_of pm)) (serial_hidden net d pm i ls hs)"
proof (induction ls arbitrary: hs i)
  case Nil
  then show ?case by simp
next
  case (Cons l ls)
  obtain h st where hs: "hs = (h, st)" by (cases hs)
  define pooling where "pooling = masked_mean_pool (rounding net) d h (mask_of pm)"
  define st1 where "st1 = st\<lparr>lora := (lora st)(l := Some (hyper_one net pooling i)),
      trace := trace st @ [HyperNet 0 (Some i) pooling, ApplyLora l]\<rparr>"
  obtain h' m' where l: "layer net l (lora st1 l) h 0 pm (memory st1) = (h', m')"
    by (cases "layer net l (lora st1 l) h 0 pm (memory st1)")
  have one: "serial_layers net d 0 pm i [l] hs = (h', st1\<lparr>memory := m'\<rparr>)"
    using l by (simp add: hs Let_def st1_def pooling_def)
  have e: "serial_layers net d 0 pm i (l # ls) hs =
           serial_layers net d 0 pm (Suc i) ls (h', st1\<lparr>memory := m'\<rparr>)"
    using l by (simp add: hs Let_def st1_def pooling_def)
  have sh: "serial_hidden net d pm i (l # ls) hs =
            h # serial_hidden net d pm (Suc i) ls (h', st1\<lparr>memory := m'\<rparr>)"
    unfolding serial_hidden.simps one by (simp add: hs)
  from Cons.IH [of "Suc i" "(h', st1\<lparr>memory := m'\<rparr>)"] obtain evs where
    t: "trace (snd (serial_layers net d 0 pm (Suc i) ls (h', st1\<lparr>memory := m'\<rparr>))) =
          trace st1 @ evs" and
    f: "forward_calls evs = []" and
    c: "hyper_calls evs = map (\<lambda>j. (0, Some j)) [Suc i..<Suc i + length ls]" and
    p: "hyper_inputs evs =
          map (\<lambda>h. masked_mean_pool (rounding net) d h (mask_of pm))
            (serial_hidden net d pm (Suc i) ls (h', st1\<lparr>memory := m'\<rparr>))"
    by auto
  let ?evs = "[HyperNet 0 (Some i) pooling, ApplyLora l] @ evs"
  have "trace (snd (serial_layers net d 0 pm i (l # ls) hs)) = trace (snd hs) @ ?evs"
    unfolding e t by (simp add: st1_def hs)
  moreover have "forward_calls ?evs = []" using f by simp
  moreover have "hyper_calls ?evs = map (\<lambda>j. (0, Some j)) [i..<i + length (l # ls)]"
  proof -
    have "hyper_calls ?evs = map (\<lambda>j. (0, Some j)) (i # [Suc i..<Suc (i + length ls)])"
      using c by simp
    then show ?thesis unfolding upt_shift by simp
  qed
  moreover have "hyper_inputs ?evs =
      map (\<lambda>h. masked_mean_pool (rounding net) d h (mask_of pm))
        (serial_hidden net d pm i (l # ls) hs)"
    unfolding sh using p by (simp add: pooling_def)
  ultimately show ?case by blast
qed

lemma apply_lora_all_trace:
  "trace (apply_lora_all ps hi ls st) = trace st @ map ApplyLora ls \<and>
   pooling_states (apply_lora_all ps hi ls st) = pooling_states st"
  by (induction ls arbitrary: hi st) simp_all

lemma apply_lora_all_other:
  "l \<notin> set ls \<Longrightarrow> lora (apply_lora_all ps hi ls st) l = lora st l"
  by (induction ls arbitrary: hi st) simp_all

lemma apply_lora_all_nth:
  "distinct ls \<Longrightarrow> j < length ls \<Longrightarrow>
     lora (apply_lora_all ps hi ls st) (ls ! j) = Some (ps (hi + j))"
proof (induction ls arbitrary: hi st j)
  case Nil
  then show ?case by simp
next
  case (Cons l ls)
  show ?case
  proof (cases j)
    case 0
    then show ?thesis using Cons.prems by (simp add: apply_lora_all_other)
  next
    case (Suc j')
    then show ?thesis using Cons.prems Cons.IH [of j' "Suc hi"] by simp
  qed
qed

lemma map_ApplyLora_calls:
  "hyper_calls (map ApplyLora ls) = [] \<and> forward_calls (map ApplyLora ls) = [] \<and>
   hyper_inputs (map ApplyLora ls) = []"
  by (induction ls) simp_all

lemma hyper_block_inference_later:
  assumes "hyper_block_inference net cfg sp pm hs = Inr hs'" and "0 < sp"
  shows "trace (snd hs') = trace (snd hs) \<and> lora (snd hs') = lora (snd hs)"
proof -
  obtain h st where hs: "hs = (h, st)" by (cases hs)
  show ?thesis
    using assms run_layers_keeps [of net sp pm "hyper_layers cfg" "(h, st)"]
      serial_layers_later [OF assms(2), of net "hidden_dim cfg" pm 0 "hyper_layers cfg" "(h, st)"]
    by (auto simp: hyper_block_inference_def hs split: if_splits)
qed

lemma hyper_block_inference_first:
  assumes "hyper_block_inference net cfg 0 pm hs = Inr hs'"
  shows "\<exists>evs. trace (snd hs') = trace (snd hs) @ evs \<and> forward_calls evs = [] \<and>
           hyper_calls evs = policy_calls cfg \<and>
           hyper_inputs evs =
             map (\<lambda>h. masked_mean_pool (rounding net) (hidden_dim cfg) h (mask_of pm))
               (if \<not> hyper_enabled cfg then []
                else if serial_generate cfg then
                  serial_hidden net (hidden_dim cfg) pm 0 (hyper_layers cfg) hs
                else [fst hs])"
proof -
  obtain h st where hs: "hs = (h, st)" by (cases hs)
  consider (off) "\<not> hyper_enabled cfg" | (par) "hyper_enabled cfg" "\<not> serial_generate cfg"
    | (ser) "hyper_enabled cfg" "serial_generate cfg" by blast
  then show ?thesis
  proof cases
    case off
    then have "hs' = hs" using assms by (simp add: hyper_block_inference_def hs)
    then show ?thesis using off by (intro exI [of _ "[]"]) (simp add: policy_calls_def)
  next
    case par
    define pooling where "pooling = masked_mean_pool (rounding net) (hidden_dim cfg) h (mask_of pm)"
    let ?evs = "HyperNet 0 None pooling # map ApplyLora (hyper_layers cfg)"
    have "hs' = run_layers net 0 pm (hyper_layers cfg)
             (h, apply_lora_all (hyper_all net pooling) 0 (hyper_layers cfg)
                   (st\<lparr>trace := trace st @ [HyperNet 0 None pooling]\<rparr>))"
      using assms par
      by (simp add: hyper_block_inference_def hs Let_def pooling_def split: if_splits)
    then have "trace (snd hs') = trace (snd hs) @ ?evs"
      by (simp add: run_layers_keeps apply_lora_all_trace hs)
    moreover have "forward_calls ?evs = []" by (simp add: map_ApplyLora_calls)
    moreover have "hyper_calls ?evs = policy_calls cfg"
      using par by (simp add: map_ApplyLora_calls policy_calls_def)
    moreover have "hyper_inputs ?evs =
             map (\<lambda>h. masked_mean_pool (rounding net) (hidden_dim cfg) h (mask_of pm))
               (if \<not> hyper_enabled cfg then []
                else if serial_generate cfg then
                  serial_hidden net (hidden_dim cfg) pm 0 (hyper_layers cfg) hs
                else [fst hs])"
      using par by (simp add: map_ApplyLora_calls pooling_def hs)
    ultimately show ?thesis by blast
  next
    case ser
    then have "hs' = serial_layers net (hidden_dim cfg) 0 pm 0 (hyper_layers cfg) hs"
      using assms by (simp add: hyper_block_inference_def hs split: if_splits)
    then show ?thesis
      using serial_layers_first [of net "hidden_dim cfg" pm 0 "hyper_layers cfg" hs] ser
      by (simp add: policy_calls_def)
  qed
qed

lemma forward_inference_Inr:
  assumes "forward_inference net cfg toks sp pm st = Inr (lg, st')"
  obtains hs' where
    "hyper_block_inference net cfg sp pm
       (run_layers net sp pm (pre_layers cfg)
          (tok_embeddings net toks, st\<lparr>trace := trace st @ [Forward sp (width toks) pm]\<rparr>))
       = Inr hs'"
    "st' = snd hs'" "width toks \<noteq> 0"
  using assms
  by (auto simp: forward_inference_def Let_def split: sum.splits prod.splits if_splits)

lemma forward_inference_later:
  assumes "forward_inference net cfg toks sp pm st = Inr (lg, st')" and "0 < sp"
  shows "trace st' = trace st @ [Forward sp (width toks) pm]"
    and "lora st' = lora st" and "width toks \<noteq> 0"
proof -
  let ?hs = "run_layers net sp pm (pre_layers cfg)
          (tok_embeddings net toks, st\<lparr>trace := trace st @ [Forward sp (width toks) pm]\<rparr>)"
  from assms(1) obtain hs' where
    hb: "hyper_block_inference net cfg sp pm ?hs = Inr hs'" and s: "st' = snd hs'"
    and w: "width toks \<noteq> 0"
    by (rule forward_inference_Inr)
  note k = hyper_block_inference_later [OF hb assms(2)]
  note r = run_layers_keeps [of net sp pm "pre_layers cfg"
      "(tok_embeddings net toks, st\<lparr>trace := trace st @ [Forward sp (width toks) pm]\<rparr>)"]
  show "trace st' = trace st @ [Forward sp (width toks) pm]" using k r s by simp
  show "lora st' = lora st" using k r s by simp
  show "width toks \<noteq> 0" by (rule w)
qed

lemma forward_inference_first:
  assumes "forward_inference net cfg toks 0 pm st = Inr (lg, st')"
  shows "width toks \<noteq> 0"
    and "\<exists>evs. trace st' = trace st @ Forward 0 (width toks) pm # evs \<and> forward_calls evs = [] \<and>
           hyper_calls evs = policy_calls cfg \<and>
           hyper_inputs evs =
             map (\<lambda>h. masked_mean_pool (rounding net) (hidden_dim cfg) h (mask_of pm))
               (pooled_hidden net cfg toks pm st)"
proof -
  let ?hs = "run_layers net 0 pm (pre_layers cfg)
          (tok_embeddings net toks, st\<lparr>trace := trace st @ [Forward 0 (width toks) pm]\<rparr>)"
  from assms(1) obtain hs' where
    hb: "hyper_block_inference net cfg 0 pm ?hs = Inr hs'" and s: "st' = snd hs'"
    and w: "width toks \<noteq> 0"
    by (rule forward_inference_Inr)
  note r = run_layers_keeps [of net 0 pm "pre_layers cfg"
      "(tok_embeddings net toks, st\<lparr>trace := trace st @ [Forward 0 (width toks) pm]\<rparr>)"]
  show "width toks \<noteq> 0" by (rule w)
  from hyper_block_inference_first [OF hb] obtain evs where
    "trace (snd hs') = trace (snd ?hs) @ evs" and
    rest: "forward_calls evs = []" "hyper_calls evs = policy_calls cfg" and
    hi: "hyper_inputs evs =
             map (\<lambda>h. masked_mean_pool (rounding net) (hidden_dim cfg) h (mask_of pm))
               (if \<not> hyper_enabled cfg then []
                else if serial_generate cfg then
                  serial_hidden net (hidden_dim cfg) pm 0 (hyper_layers cfg) ?hs
                else [fst ?hs])"
    by blast
  then have t: "trace st' = trace st @ Forward 0 (width toks) pm # evs"
    using r s by simp
  have "hyper_inputs evs =
             map (\<lambda>h. masked_mean_pool (rounding net) (hidden_dim cfg) h (mask_of pm))
               (pooled_hidden net cfg toks pm st)"
    unfolding hi by (simp add: pooled_hidden_def Let_def)
  with t rest
  show "\<exists>evs. trace st' = trace st @ Forward 0 (width toks) pm # evs \<and> forward_calls evs = [] \<and>
           hyper_calls evs = policy_calls cfg \<and>
           hyper_inputs evs =
             map (\<lambda>h. masked_mean_pool (rounding net) (hidden_dim cfg) h (mask_of pm))
               (pooled_hidden net cfg toks pm st)"
    by blast
qed
lemma later_calls_Cons: "0 < sp \<Longrightarrow> later_calls (Forward sp n pm # evs) = later_calls evs"
  by (simp add: later_calls_def)

lemma run_segments_later:
  "0 < lsp \<Longrightarrow> run_segments net cfg a itm lsp segs (lg, st) = Inr (lg', st') \<Longrightarrow>
     \<exists>evs. trace st' = trace st @ evs \<and> later_calls evs"
proof (induction segs arbitrary: lsp lg st)
  case Nil
  then show ?case by (simp add: later_calls_Nil)
next
  case (Cons seg segs)
  from Cons.prems obtain lg1 st1 where
    f: "forward_inference net cfg seg lsp None st = Inr (lg1, st1)" and
    r: "run_segments net cfg a itm (lsp + width seg) segs (Some lg1, st1) = Inr (lg', st')"
    by (auto split: sum.splits prod.splits)
  have t1: "trace st1 = trace st @ [Forward lsp (width seg) None]"
    using f Cons.prems(1) by (rule forward_inference_later)
  have "0 < lsp + width seg" using Cons.prems(1) by simp
  from Cons.IH [OF this r] obtain evs where
    "trace st' = trace st1 @ evs" and "later_calls evs" by blast
  then have "trace st' = trace st @ ([Forward lsp (width seg) None] @ evs)"
    and "later_calls ([Forward lsp (width seg) None] @ evs)"
    using t1 Cons.prems(1) by (simp_all add: later_calls_Cons)
  then show ?case by blast
qed

lemma forward_step_later:
  assumes "forward_step net cfg a itm cur_pos ls = Inr (lg, st')" and "0 < prev_pos ls"
  shows "\<exists>evs. trace st' = trace (model ls) @ evs \<and> later_calls evs"
proof -
  let ?sl = "map (slice_py (prev_pos ls) cur_pos) (tokens ls)"
  have "forward_inference net cfg ?sl (prev_pos ls) None (model ls) = Inr (lg, st')"
    using assms by (simp add: forward_step_def need_segment_def Let_def)
  then have "trace st' = trace (model ls) @ [Forward (prev_pos ls) (width ?sl) None]"
    using assms(2) by (rule forward_inference_later)
  moreover have "later_calls [Forward (prev_pos ls) (width ?sl) None]"
    using assms(2) by (rule later_calls_Forward)
  ultimately show ?thesis by blast
qed

lemma decode_loop_later:
  "decode_loop net cfg a itm ps ls = Inr ls' \<Longrightarrow> 0 < prev_pos ls \<Longrightarrow> \<forall>p\<in>set ps. 0 < p \<Longrightarrow>
     \<exists>evs. trace (model ls') = trace (model ls) @ evs \<and> later_calls evs"
proof (induction ps arbitrary: ls)
  case Nil
  then show ?case by (simp add: later_calls_Nil)
next
  case (Cons p ps)
  from Cons.prems(1) obtain ls1 stop where
    st: "decode_step net cfg a itm p ls = Inr (ls1, stop)" and
    rest: "if stop then ls' = ls1 else decode_loop net cfg a itm ps ls1 = Inr ls'"
    by (auto split: sum.splits prod.splits if_splits)
  from st obtain s lg where
    f: "forward_step net cfg a itm p ls = Inr (lg, model ls1)" and
    pp: "prev_pos ls1 = (if stop then prev_pos ls else p)"
    by (rule decode_step_Inr)
  from forward_step_later [OF f Cons.prems(2)] obtain evs where
    e: "trace (model ls1) = trace (model ls) @ evs" "later_calls evs" by blast
  show ?case
  proof (cases stop)
    case True
    then show ?thesis using rest e by auto
  next
    case False
    then have l: "decode_loop net cfg a itm ps ls1 = Inr ls'" using rest by simp
    have "0 < prev_pos ls1" using pp False Cons.prems(3) by simp
    moreover have "\<forall>p\<in>set ps. 0 < p" using Cons.prems(3) by simp
    ultimately obtain evs' where
      "trace (model ls') = trace (model ls1) @ evs'" "later_calls evs'"
      using Cons.IH [OF l] by blast
    then have "trace (model ls') = trace (model ls) @ (evs @ evs')" "later_calls (evs @ evs')"
      using e by (simp_all add: later_calls_append)
    then show ?thesis by blast
  qed
qed

lemma tensor_split_Cons: "\<exists>seg segs. tensor_split lo idxs g = seg # segs"
  by (cases idxs) simp_all

lemma width_slice_zero: "width (map (slice_py 0 0) g) = 0"
  by (cases g) (simp_all add: width_def slice_py_def)

lemma py_range_Inr:
  "py_range start stop step = Inr idxs \<Longrightarrow>
     0 < step \<and> idxs = map (\<lambda>k. start + k * step) [0..<(stop - start + (step - 1)) div step]"
  by (auto simp: py_range_def split: if_splits)

lemma first_index:
  assumes "S < L" and "py_range S L S = Inr idxs"
  shows "\<exists>rest. idxs = S # rest"
proof -
  define n where "n = (L - S + (S - 1)) div S"
  have S: "0 < S" and i: "idxs = map (\<lambda>k. S + k * S) [0..<n]"
    using py_range_Inr [OF assms(2)] by (simp_all add: n_def)
  have "S \<le> L - S + (S - 1)" using assms(1) S by arith
  then have "S div S \<le> n" unfolding n_def by (rule div_le_mono)
  then have "0 < n" using S by simp
  then have "[0..<n] = 0 # [Suc 0..<n]" by (simp add: upt_conv_Cons)
  then show ?thesis unfolding i by simp
qed

lemma first_segment:
  assumes "S < cur_pos" and "toks \<noteq> []" and "\<forall>row\<in>set toks. cur_pos \<le> length row"
    and "py_range S (width (map (slice_py 0 cur_pos) toks)) S = Inr idxs"
    and "tensor_split 0 idxs (map (slice_py 0 cur_pos) toks) = seg # segs"
  shows "seg = map (take (min S cur_pos)) toks"
proof -
  let ?sl = "map (slice_py 0 cur_pos) toks"
  have "width ?sl = cur_pos"
    using assms(2,3) by (cases toks) (simp_all add: width_def slice_py_def)
  then have "py_range S cur_pos S = Inr idxs" using assms(4) by simp
  with assms(1) obtain rest where "idxs = S # rest" using first_index by blast
  then have "seg = map (slice_py 0 S) ?sl" using assms(5) by simp
  then show ?thesis using assms(1) by (simp add: slice_py_def min_def)
qed

lemma forward_step_first:
  assumes "forward_step net cfg a itm cur_pos ls = Inr (lg, st')" and "prev_pos ls = 0"
  shows "0 < cur_pos \<and>
    (\<exists>toks pm evs evs'.
       trace st' = trace (model ls) @ Forward 0 (width toks) (Some pm) # evs @ evs' \<and>
       forward_calls evs = [] \<and> hyper_calls evs = policy_calls cfg \<and>
       hyper_inputs evs =
         map (\<lambda>h. masked_mean_pool (rounding net) (hidden_dim cfg) h pm)
           (pooled_hidden net cfg toks (Some pm) (model ls)) \<and>
       later_calls evs' \<and>
       (\<not> is_instruction (hyper_input_type a) \<longrightarrow>
          pm = map (take (min (segment_size a) cur_pos)) itm) \<and>
       (tokens ls \<noteq> [] \<and> (\<forall>row\<in>set (tokens ls). cur_pos \<le> length row) \<longrightarrow>
          toks = map (take (min (segment_size a) cur_pos)) (tokens ls)))"
proof (cases "segment_size a < cur_pos")
  case True
  let ?sl = "map (slice_py 0 cur_pos) (tokens ls)"
  from assms True obtain idxs where
    pr: "py_range (segment_size a) (width ?sl) (segment_size a) = Inr idxs" and
    rs: "run_segments net cfg a itm 0 (tensor_split 0 idxs ?sl) (None, model ls) = Inr (Some lg, st')"
    by (auto simp: forward_step_def need_segment_def Let_def split: sum.splits prod.splits option.splits)
  obtain seg segs where ts: "tensor_split 0 idxs ?sl = seg # segs"
    using tensor_split_Cons by blast
  from rs obtain pm lg1 st1 where
    pm: "prompt_mask_segmented (segment_size a) (hyper_input_type a) (hyper_input_spans a) itm = Inr pm"
    and f: "forward_inference net cfg seg 0 (Some pm) (model ls) = Inr (lg1, st1)"
    and r: "run_segments net cfg a itm (0 + width seg) segs (Some lg1, st1) = Inr (Some lg, st')"
    unfolding ts by (auto split: sum.splits prod.splits)
  have w: "0 < 0 + width seg" using forward_inference_first(1) [OF f] by simp
  from forward_inference_first(2) [OF f] obtain evs where
    e: "trace st1 = trace (model ls) @ Forward 0 (width seg) (Some pm) # evs"
       "forward_calls evs = []" "hyper_calls evs = policy_calls cfg"
       "hyper_inputs evs =
         map (\<lambda>h. masked_mean_pool (rounding net) (hidden_dim cfg) h pm)
           (pooled_hidden net cfg seg (Some pm) (model ls))"
    by (auto simp: mask_of_def)
  from run_segments_later [OF w r] obtain evs' where
    e': "trace st' = trace st1 @ evs'" "later_calls evs'" by blast
  have m: "\<not> is_instruction (hyper_input_type a) \<longrightarrow>
          pm = map (take (min (segment_size a) cur_pos)) itm"
    using pm True by (auto simp: prompt_mask_segmented_def Let_def min_def)
  have tk: "tokens ls \<noteq> [] \<and> (\<forall>row\<in>set (tokens ls). cur_pos \<le> length row) \<longrightarrow>
          seg = map (take (min (segment_size a) cur_pos)) (tokens ls)"
    using first_segment [OF True _ _ pr ts] by blast
  have t: "trace st' = trace (model ls) @ Forward 0 (width seg) (Some pm) # evs @ evs'"
    using e(1) e'(1) by simp
  have "\<exists>toks pm evs evs'.
       trace st' = trace (model ls) @ Forward 0 (width toks) (Some pm) # evs @ evs' \<and>
       forward_calls evs = [] \<and> hyper_calls evs = policy_calls cfg \<and>
       hyper_inputs evs =
         map (\<lambda>h. masked_mean_pool (rounding net) (hidden_dim cfg) h pm)
           (pooled_hidden net cfg toks (Some pm) (model ls)) \<and>
       later_calls evs' \<and>
       (\<not> is_instruction (hyper_input_type a) \<longrightarrow>
          pm = map (take (min (segment_size a) cur_pos)) itm) \<and>
       (tokens ls \<noteq> [] \<and> (\<forall>row\<in>set (tokens ls). cur_pos \<le> length row) \<longrightarrow>
          toks = map (take (min (segment_size a) cur_pos)) (tokens ls))"
    apply (rule exI [of _ seg])
    apply (rule exI [of _ pm])
    apply (rule exI [of _ evs])
    apply (rule exI [of _ evs'])
    apply (intro conjI)
          apply (rule t)
         apply (rule e(2))
        apply (rule e(3))
       apply (rule e(4))
      apply (rule e'(2))
     apply (rule m)
    apply (rule tk)
    done
  then show ?thesis using True by simp
next
  case False
  let ?sl = "map (slice_py 0 cur_pos) (tokens ls)"
  from assms False obtain pm where
    pm: "prompt_mask_whole 0 cur_pos (hyper_input_type a) (hyper_input_spans a) itm = Inr pm"
    and f: "forward_inference net cfg ?sl 0 (Some pm) (model ls) = Inr (lg, st')"
    by (auto simp: forward_step_def need_segment_def Let_def split: sum.splits)
  have "width ?sl \<noteq> 0" using f by (rule forward_inference_first)
  then have c: "0 < cur_pos" using width_slice_zero [of "tokens ls"] by (cases cur_pos) auto
  from forward_inference_first(2) [OF f] obtain evs where
    e: "trace st' = trace (model ls) @ Forward 0 (width ?sl) (Some pm) # evs"
       "forward_calls evs = []" "hyper_calls evs = policy_calls cfg"
       "hyper_inputs evs =
         map (\<lambda>h. masked_mean_pool (rounding net) (hidden_dim cfg) h pm)
           (pooled_hidden net cfg ?sl (Some pm) (model ls))"
    by (auto simp: mask_of_def)
  have m: "\<not> is_instruction (hyper_input_type a) \<longrightarrow>
          pm = map (take (min (segment_size a) cur_pos)) itm"
    using pm False by (auto simp: prompt_mask_whole_def Let_def min_def slice_py_def)
  have tk: "tokens ls \<noteq> [] \<and> (\<forall>row\<in>set (tokens ls). cur_pos \<le> length row) \<longrightarrow>
          ?sl = map (take (min (segment_size a) cur_pos)) (tokens ls)"
    using False by (simp add: slice_py_def min_def)
  have t: "trace st' = trace (model ls) @ Forward 0 (width ?sl) (Some pm) # evs @ []"
    using e(1) by simp
  have "\<exists>toks pm evs evs'.
       trace st' = trace (model ls) @ Forward 0 (width toks) (Some pm) # evs @ evs' \<and>
       forward_calls evs = [] \<and> hyper_calls evs = policy_calls cfg \<and>
       hyper_inputs evs =
         map (\<lambda>h. masked_mean_pool (rounding net) (hidden_dim cfg) h pm)
           (pooled_hidden net cfg toks (Some pm) (model ls)) \<and>
       later_calls evs' \<and>
       (\<not> is_instruction (hyper_input_type a) \<longrightarrow>
          pm = map (take (min (segment_size a) cur_pos)) itm) \<and>
       (tokens ls \<noteq> [] \<and> (\<forall>row\<in>set (tokens ls). cur_pos \<le> length row) \<longrightarrow>
          toks = map (take (min (segment_size a) cur_pos)) (tokens ls))"
    apply (rule exI [of _ ?sl])
    apply (rule exI [of _ pm])
    apply (rule exI [of _ evs])
    apply (rule exI [of _ "[]"])
    apply (intro conjI)
          apply (rule t)
         apply (rule e(2))
        apply (rule e(3))
       apply (rule e(4))
      apply (rule later_calls_Nil)
     apply (rule m)
    apply (rule tk)
    done
  then show ?thesis using c by simp
qed

lemma generate_trace:
  assumes "generate net cfg a st0 = Inr r" and "min_prompt_size a < total_len cfg a"
    and "init_tokens cfg a = Inr g"
  shows "\<exists>toks pm evs evs'.
       trace (model (final r)) = Forward 0 (width toks) (Some pm) # evs @ evs' \<and>
       forward_calls evs = [] \<and> hyper_calls evs = policy_calls cfg \<and>
       hyper_inputs evs =
         map (\<lambda>h. masked_mean_pool (rounding net) (hidden_dim cfg) h pm)
           (pooled_hidden net cfg toks (Some pm) (st0\<lparr>memory := empty_memory net, trace := []\<rparr>)) \<and>
       later_calls evs' \<and>
       (\<not> is_instruction (hyper_input_type a) \<longrightarrow>
          pm = map (take (min (segment_size a) (min_prompt_size a))) (input_text_mask cfg g)) \<and>
       toks = map (take (min (segment_size a) (min_prompt_size a))) g"
proof -
  let ?itm = "input_text_mask cfg g"
  let ?mn = "min_prompt_size a"
  let ?st = "st0\<lparr>memory := empty_memory net, trace := []\<rparr>"
  let ?ls0 = "\<lparr>tokens = g, prev_pos = 0, model = ?st, steps = []\<rparr>"
  from assms(1) obtain g' where "init_tokens cfg a = Inr g'" and ne: "prompts a \<noteq> []" and
    "decode_loop net cfg a (input_text_mask cfg g') [?mn..<total_len cfg a]
       \<lparr>tokens = g', prev_pos = 0, model = ?st, steps = []\<rparr> = Inr (final r)"
    by (rule generate_Inr)
  then have "decode_loop net cfg a ?itm [?mn..<total_len cfg a] ?ls0 = Inr (final r)"
    using assms(3) by simp
  then have lp: "decode_loop net cfg a ?itm (?mn # [Suc ?mn..<total_len cfg a]) ?ls0 = Inr (final r)"
    using assms(2) by (simp add: upt_conv_Cons)
  then obtain ls1 stop where
    st: "decode_step net cfg a ?itm ?mn ?ls0 = Inr (ls1, stop)" and
    rest: "if stop then final r = ls1
           else decode_loop net cfg a ?itm [Suc ?mn..<total_len cfg a] ls1 = Inr (final r)"
    by (auto split: sum.splits prod.splits if_splits)
  from st obtain s lg where
    f: "forward_step net cfg a ?itm ?mn ?ls0 = Inr (lg, model ls1)" and
    pp: "prev_pos ls1 = (if stop then prev_pos ?ls0 else ?mn)"
    by (rule decode_step_Inr)
  have p0: "prev_pos ?ls0 = 0" by simp
  have lg: "length g = length (prompts a)" using assms(3) by (rule init_tokens_shape)
  have gne: "tokens ?ls0 \<noteq> []" using lg ne by auto
  have grows: "\<forall>row\<in>set (tokens ?ls0). ?mn \<le> length row"
    using init_tokens_shape(2) [OF assms(3)] lg assms(2) by (auto simp: in_set_conv_nth)
  from forward_step_first [OF f p0] gne grows obtain toks pm evs evs' where
    pos: "0 < ?mn" and
    t: "trace (model ls1) = trace (model ?ls0) @ Forward 0 (width toks) (Some pm) # evs @ evs'" and
    e: "forward_calls evs = []" "hyper_calls evs = policy_calls cfg"
       "hyper_inputs evs =
         map (\<lambda>h. masked_mean_pool (rounding net) (hidden_dim cfg) h pm)
           (pooled_hidden net cfg toks (Some pm) (model ?ls0))"
       "\<not> is_instruction (hyper_input_type a) \<longrightarrow>
          pm = map (take (min (segment_size a) ?mn)) ?itm" and
    l: "later_calls evs'" and
    tk: "toks = map (take (min (segment_size a) ?mn)) (tokens ?ls0)"
    by blast
  have t1: "trace (model ls1) = Forward 0 (width toks) (Some pm) # evs @ evs'" using t by simp
  obtain evs'' where
    t2: "trace (model (final r)) = trace (model ls1) @ evs''" and l2: "later_calls evs''"
  proof (cases stop)
    case True
    then have "trace (model (final r)) = trace (model ls1) @ []" using rest by simp
    then show ?thesis using later_calls_Nil by (rule that)
  next
    case False
    then have lp': "decode_loop net cfg a ?itm [Suc ?mn..<total_len cfg a] ls1 = Inr (final r)"
      using rest by simp
    have "0 < prev_pos ls1" using pp False pos by simp
    moreover have "\<forall>p\<in>set [Suc ?mn..<total_len cfg a]. 0 < p" by simp
    ultimately show ?thesis using decode_loop_later [OF lp'] that by blast
  qed
  have tt: "trace (model (final r)) = Forward 0 (width toks) (Some pm) # evs @ (evs' @ evs'')"
    using t1 t2 by simp
  have ll: "later_calls (evs' @ evs'')" using l l2 by (simp add: later_calls_append)
  have hi: "hyper_inputs evs =
         map (\<lambda>h. masked_mean_pool (rounding net) (hidden_dim cfg) h pm)
           (pooled_hidden net cfg toks (Some pm) ?st)"
    using e(3) by simp
  have tk': "toks = map (take (min (segment_size a) ?mn)) g" using tk by simp
  show ?thesis
    apply (rule exI [of _ toks])
    apply (rule exI [of _ pm])
    apply (rule exI [of _ evs])
    apply (rule exI [of _ "evs' @ evs''"])
    apply (intro conjI)
          apply (rule tt)
         apply (rule e(1))
        apply (rule e(2))
       apply (rule hi)
      apply (rule ll)
     apply (rule e(4))
    apply (rule tk')
    done
qed

lemma generate_no_decode:
  assumes "generate net cfg a st0 = Inr r" and "\<not> min_prompt_size a < total_len cfg a"
  shows "trace (model (final r)) = []" and "steps (final r) = []"
proof -
  from assms(1) obtain g where
    "decode_loop net cfg a (input_text_mask cfg g) [min_prompt_size a..<total_len cfg a]
       \<lparr>tokens = g, prev_pos = 0, model = st0\<lparr>memory := empty_memory net, trace := []\<rparr>,
        steps = []\<rparr> = Inr (final r)"
    by (rule generate_Inr)
  then have "final r = \<lparr>tokens = g, prev_pos = 0,
      model = st0\<lparr>memory := empty_memory net, trace := []\<rparr>, steps = []\<rparr>"
    using assms(2) by simp
  then show "trace (model (final r)) = []" and "steps (final r) = []" by simp_all
qed

lemma generate_hyper_calls:
  assumes "generate net cfg a st0 = Inr r" and "min_prompt_size a < total_len cfg a"
  shows "hyper_calls (trace (model (final r))) = policy_calls cfg"
    and "\<exists>len rest. forward_calls (trace (model (final r))) = (0, len) # rest \<and>
           (\<forall>c\<in>set rest. 0 < fst c)"
proof -
  from assms(1) obtain g where g: "init_tokens cfg a = Inr g" by (rule generate_Inr)
  from generate_trace [OF assms g] obtain toks pm evs evs' where
    t: "trace (model (final r)) = Forward 0 (width toks) (Some pm) # evs @ evs'" and
    e: "forward_calls evs = []" "hyper_calls evs = policy_calls cfg" and
    "hyper_inputs evs =
         map (\<lambda>h. masked_mean_pool (rounding net) (hidden_dim cfg) h pm)
           (pooled_hidden net cfg toks (Some pm) (st0\<lparr>memory := empty_memory net, trace := []\<rparr>))" and
    l: "later_calls evs'" and
    "\<not> is_instruction (hyper_input_type a) \<longrightarrow>
          pm = map (take (min (segment_size a) (min_prompt_size a))) (input_text_mask cfg g)" and
    "toks = map (take (min (segment_size a) (min_prompt_size a))) g"
    by blast
  show "hyper_calls (trace (model (final r))) = policy_calls cfg"
    using t e l by (simp add: hyper_calls_append later_calls_def)
  have "forward_calls (trace (model (final r))) = (0, width toks) # forward_calls evs'"
    using t e by (simp add: forward_calls_append)
  moreover have "\<forall>c\<in>set (forward_calls evs'). 0 < fst c"
    using l by (simp add: later_calls_def list_all_iff)
  ultimately show "\<exists>len rest. forward_calls (trace (model (final r))) = (0, len) # rest \<and>
           (\<forall>c\<in>set rest. 0 < fst c)"
    by blast
qed

text \<open>
  Claim C3, amended. \<open>N\<close> is the number of layers in \<^verbatim>\<open>layers[hyper_lora_start:]\<close>, for
  a start index that is positive, or \<^verbatim>\<open>None\<close> (then there is no such layer). Under the
  serial policy a call of \<^verbatim>\<open>generate\<close> that returns and has at least one position to
  decode (\<open>min_prompt_size < total_len\<close>) calls the hypernetwork exactly \<open>N\<close> times, with
  the indices \<open>0, \<dots>, N - 1\<close> in this order and each time inside a forward call with
  \<^verbatim>\<open>start_pos == 0\<close>; the trace has exactly one such forward call, the first one, and
  every later forward call has a positive \<^verbatim>\<open>start_pos\<close>. A call that returns and has no
  position to decode makes no forward call and calls no hypernetwork.
\<close>

theorem serial_hypernetwork_calls:
  assumes "serial_generate cfg" and "hyper_lora_start cfg \<noteq> Some 0"
    and "generate net cfg a st0 = Inr r"
  shows "(min_prompt_size a < total_len cfg a \<longrightarrow>
            hyper_calls (trace (model (final r))) =
              map (\<lambda>j. (0, Some j)) [0..<length (hyper_layers cfg)] \<and>
            (\<exists>len rest. forward_calls (trace (model (final r))) = (0, len) # rest \<and>
               (\<forall>c\<in>set rest. 0 < fst c))) \<and>
         (\<not> min_prompt_size a < total_len cfg a \<longrightarrow> trace (model (final r)) = [])"
proof (intro conjI impI)
  assume n: "min_prompt_size a < total_len cfg a"
  have "policy_calls cfg = map (\<lambda>j. (0, Some j)) [0..<length (hyper_layers cfg)]"
    using assms(1,2)
    by (cases "hyper_lora_start cfg") (simp_all add: policy_calls_def hyper_enabled_def hyper_layers_def)
  then show "hyper_calls (trace (model (final r))) =
      map (\<lambda>j. (0, Some j)) [0..<length (hyper_layers cfg)]"
    using generate_hyper_calls(1) [OF assms(3) n] by simp
  show "\<exists>len rest. forward_calls (trace (model (final r))) = (0, len) # rest \<and>
      (\<forall>c\<in>set rest. 0 < fst c)"
    using assms(3) n by (rule generate_hyper_calls(2))
next
  assume "\<not> min_prompt_size a < total_len cfg a"
  with assms(3) show "trace (model (final r)) = []" by (rule generate_no_decode)
qed

theorem serial_hypernetwork_calls_witness:
  "(\<exists>r. generate demo_net demo_cfg demo_args demo_st = Inr r \<and>
      length (hyper_layers demo_cfg) = 2 \<and>
      hyper_calls (trace (model (final r))) = [(0, Some 0), (0, Some 1)]) \<and>
   (\<exists>r. generate demo_net demo_cfg demo_args_no_decode demo_st = Inr r \<and>
      trace (model (final r)) = [])"
proof -
  from demo_run obtain r where r: "generate demo_net demo_cfg demo_args demo_st = Inr r"
    by blast
  obtain r' where r': "generate demo_net demo_cfg demo_args_no_decode demo_st = Inr r'"
    by (simp add: eval_defs demo_defs del: upt_Suc)
  have s: "serial_generate demo_cfg" and z: "hyper_lora_start demo_cfg \<noteq> Some 0"
    by (simp_all add: demo_defs)
  have n: "min_prompt_size demo_args < total_len demo_cfg demo_args"
    and n': "\<not> min_prompt_size demo_args_no_decode < total_len demo_cfg demo_args_no_decode"
    by (simp_all add: eval_defs demo_defs)
  have l: "length (hyper_layers demo_cfg) = 2"
    by (simp add: eval_defs demo_defs)
  have "hyper_calls (trace (model (final r))) = [(0, Some 0), (0, Some 1)]"
    using serial_hypernetwork_calls [OF s z r] n l by (simp add: upt_conv_Cons del: upt_Suc)
  moreover have "trace (model (final r')) = []"
    using serial_hypernetwork_calls [OF s z r'] n' by simp
  ultimately show ?thesis using r r' l by blast
qed

text \<open>
  Claim C3 as stated fails. With two hyper-adapted layers and nothing to generate
  (\<^verbatim>\<open>max_gen_len = 0\<close>) the loop of \<^verbatim>\<open>generate\<close> has no iteration, the call returns and
  the hypernetwork is not called at all. With \<^verbatim>\<open>hyper_lora_start = 0\<close> the slice
  \<^verbatim>\<open>layers[0:]\<close> has three layers, but the test \<^verbatim>\<open>if self.hyper_lora_start:\<close> is false
  for the index 0, and a call that decodes three positions calls no hypernetwork.
\<close>

theorem serial_calls_fewer_than_layers:
  "serial_generate demo_cfg \<and> length (hyper_layers demo_cfg) = 2 \<and>
   (case generate demo_net demo_cfg demo_args_no_decode demo_st of
      Inl e \<Rightarrow> None
    | Inr r \<Rightarrow> Some (hyper_calls (trace (model (final r))))) = Some [] \<and>
   serial_generate demo_cfg_start0 \<and> length (hyper_layers demo_cfg_start0) = 3 \<and>
   (case generate demo_net demo_cfg_start0 demo_args demo_st of
      Inl e \<Rightarrow> None
    | Inr r \<Rightarrow> Some (hyper_calls (trace (model (final r))), map fst (steps (final r)))) =
     Some ([], [3, 4, 5])"
  by (simp add: eval_defs demo_defs del: upt_Suc)

section \<open>The masked mean with an empty mask\<close>

lemma zero_sum_mask:
  assumes "rnd 0 = Fin 0" and "True \<notin> set ms"
  shows "fsum rnd (map mask_float ms) = Fin 0"
proof -
  have "foldl (fadd rnd) (Fin 0) (map mask_float ms) = Fin 0"
    using assms(2)
  proof (induction ms)
    case Nil
    then show ?case by simp
  next
    case (Cons m ms)
    then have "\<not> m" and "True \<notin> set ms" by auto
    then show ?case using Cons.IH assms(1) by (simp add: mask_float_def)
  qed
  then show ?thesis by (simp add: fsum_def)
qed

lemma fmul_zero:
  "rnd 0 = Fin 0 \<Longrightarrow> fmul rnd x (Fin 0) = Fin 0 \<or> fmul rnd x (Fin 0) = NaN"
  by (cases x) simp_all

lemma fadd_zero:
  "rnd 0 = Fin 0 \<Longrightarrow> a = Fin 0 \<or> a = NaN \<Longrightarrow> b = Fin 0 \<or> b = NaN \<Longrightarrow>
     fadd rnd a b = Fin 0 \<or> fadd rnd a b = NaN"
  by auto

lemma fdiv_zero: "s = Fin 0 \<or> s = NaN \<Longrightarrow> fdiv rnd s (Fin 0) = NaN"
  by auto

lemma summed_zero:
  "rnd 0 = Fin 0 \<Longrightarrow> \<forall>x\<in>set acc. x = Fin 0 \<or> x = NaN \<Longrightarrow>
     \<forall>v\<in>set vs. \<forall>x\<in>set v. x = Fin 0 \<or> x = NaN \<Longrightarrow>
     \<forall>x\<in>set (foldl (\<lambda>acc v. map (\<lambda>(a, x). fadd rnd a x) (zip acc v)) acc vs).
        x = Fin 0 \<or> x = NaN"
proof (induction vs arbitrary: acc)
  case Nil
  then show ?case by simp
next
  case (Cons v vs)
  have step: "\<forall>x\<in>set (map (\<lambda>(a, x). fadd rnd a x) (zip acc v)). x = Fin 0 \<or> x = NaN"
  proof
    fix x
    assume "x \<in> set (map (\<lambda>(a, x). fadd rnd a x) (zip acc v))"
    then obtain a b where ab: "(a, b) \<in> set (zip acc v)" and x: "x = fadd rnd a b" by auto
    have "a \<in> set acc" and "b \<in> set v"
      using ab by (auto dest: set_zip_leftD set_zip_rightD)
    then have "a = Fin 0 \<or> a = NaN" and "b = Fin 0 \<or> b = NaN"
      using Cons.prems by simp_all
    with Cons.prems(1) show "x = Fin 0 \<or> x = NaN" unfolding x by (rule fadd_zero)
  qed
  have rest: "\<forall>v\<in>set vs. \<forall>x\<in>set v. x = Fin 0 \<or> x = NaN" using Cons.prems(3) by simp
  show ?case using Cons.IH [OF Cons.prems(1) step rest] by simp
qed

lemma summed_length:
  "length acc = d \<Longrightarrow> \<forall>v\<in>set vs. length v = d \<Longrightarrow>
     length (foldl (\<lambda>acc v. map (\<lambda>(a, x). fadd rnd a x) (zip acc v)) acc vs) = d"
  by (induction vs arbitrary: acc) simp_all

lemma pool_row_zero:
  assumes "rnd 0 = Fin 0" and "True \<notin> set ms"
  shows "\<forall>x\<in>set (pool_row rnd d hs ms). x = NaN"
    and "\<forall>v\<in>set hs. length v = d \<Longrightarrow> pool_row rnd d hs ms = replicate d NaN"
proof -
  let ?weighted = "map (\<lambda>(v, m). map (\<lambda>x. fmul rnd x (mask_float m)) v) (zip hs ms)"
  let ?summed = "foldl (\<lambda>acc v. map (\<lambda>(a, x). fadd rnd a x) (zip acc v)) (replicate d (Fin 0)) ?weighted"
  have "fsum rnd (map mask_float ms) = Fin 0" using assms by (rule zero_sum_mask)
  then have p: "pool_row rnd d hs ms = map (\<lambda>s. fdiv rnd s (Fin 0)) ?summed"
    by (simp add: pool_row_def Let_def)
  have w: "\<forall>v\<in>set ?weighted. \<forall>x\<in>set v. x = Fin 0 \<or> x = NaN"
  proof (intro ballI)
    fix v x
    assume "v \<in> set ?weighted" and x: "x \<in> set v"
    then obtain u m where um: "(u, m) \<in> set (zip hs ms)"
      and v: "v = map (\<lambda>x. fmul rnd x (mask_float m)) u" by auto
    have "m \<in> set ms" using um by (rule set_zip_rightD)
    then have "\<not> m" using assms(2) by auto
    then have "mask_float m = Fin 0" by (simp add: mask_float_def)
    then show "x = Fin 0 \<or> x = NaN" using x v fmul_zero [where rnd = rnd, OF assms(1)] by auto
  qed
  have "\<forall>x\<in>set (replicate d (Fin 0)). x = Fin 0 \<or> x = NaN" by simp
  with assms(1) have s: "\<forall>x\<in>set ?summed. x = Fin 0 \<or> x = NaN" using w by (rule summed_zero)
  show all: "\<forall>x\<in>set (pool_row rnd d hs ms). x = NaN"
    unfolding p using s fdiv_zero by auto
  show "pool_row rnd d hs ms = replicate d NaN" if "\<forall>v\<in>set hs. length v = d"
  proof -
    have "\<forall>v\<in>set ?weighted. length v = d"
      using that by (auto dest: set_zip_leftD)
    then have "length ?summed = d" by (intro summed_length) simp_all
    then have "length (pool_row rnd d hs ms) = d" unfolding p by simp
    then show ?thesis using all by (metis replicate_eqI)
  qed
qed

lemma forward_inference_returns:
  "width toks \<noteq> 0 \<Longrightarrow> \<not> isl (forward_inference net cfg toks sp (Some pm) st)"
  by (simp add: forward_inference_def hyper_block_inference_def Let_def split: prod.splits)

lemma masked_mean_pool_row:
  "k < length h \<Longrightarrow> k < length pm \<Longrightarrow>
     masked_mean_pool rnd d h pm ! k = pool_row rnd d (h ! k) (pm ! k)"
  by (simp add: masked_mean_pool_def)

lemma masked_mean_pool_length:
  "length (masked_mean_pool rnd d h pm) = min (length h) (length pm)"
  by (simp add: masked_mean_pool_def)

text \<open>
  Claim C4, amended. When the mask row of a sequence has no unmasked position, the masked
  mean does not fail: the sum of the masked hidden states is divided by a zero
  denominator, and every component of that sequence's pooled vector is NaN. A forward call
  with \<^verbatim>\<open>start_pos == 0\<close> and such a mask of the batch's shape, on a batch with at least
  one position, returns;
  it calls the hypernetwork as with any other mask, every pooled vector it hands to the
  hypernetwork is the masked mean of the hidden states pooled at that point, and the row
  of that sequence in it holds NaN only. The rounding of the float format is taken to
  keep zero.
\<close>

theorem masked_mean_zero_row:
  assumes "rounding net 0 = Fin 0" and "k < length pm" and "True \<notin> set (pm ! k)"
  shows "(k < length h \<longrightarrow>
            (\<forall>x\<in>set (masked_mean_pool (rounding net) d h pm ! k). x = NaN) \<and>
            ((\<forall>v\<in>set (h ! k). length v = d) \<longrightarrow>
               masked_mean_pool (rounding net) d h pm ! k = replicate d NaN)) \<and>
         (width toks \<noteq> 0 \<and> length pm = length toks \<and>
          (\<forall>row\<in>set pm. length row = width toks) \<longrightarrow>
            (\<exists>lg st' evs. forward_inference net cfg toks 0 (Some pm) st = Inr (lg, st') \<and>
               trace st' = trace st @ Forward 0 (width toks) (Some pm) # evs \<and>
               hyper_calls evs = policy_calls cfg \<and>
               hyper_inputs evs =
                 map (\<lambda>h. masked_mean_pool (rounding net) (hidden_dim cfg) h pm)
                   (pooled_hidden net cfg toks (Some pm) st) \<and>
               (\<forall>pl\<in>set (hyper_inputs evs). k < length pl \<longrightarrow> (\<forall>x\<in>set (pl ! k). x = NaN))))"
proof (intro conjI impI)
  assume k: "k < length h"
  have row: "masked_mean_pool (rounding net) d h pm ! k =
      pool_row (rounding net) d (h ! k) (pm ! k)"
    using k assms(2) by (rule masked_mean_pool_row)
  show "\<forall>x\<in>set (masked_mean_pool (rounding net) d h pm ! k). x = NaN"
    unfolding row using assms(1,3) by (rule pool_row_zero)
  show "masked_mean_pool (rounding net) d h pm ! k = replicate d NaN"
    if "\<forall>v\<in>set (h ! k). length v = d"
    unfolding row using assms(1,3) that by (rule pool_row_zero)
next
  assume "width toks \<noteq> 0 \<and> length pm = length toks \<and>
          (\<forall>row\<in>set pm. length row = width toks)"
  then have w: "width toks \<noteq> 0" by simp
  then have "\<not> isl (forward_inference net cfg toks 0 (Some pm) st)"
    by (rule forward_inference_returns)
  then obtain lg st' where f: "forward_inference net cfg toks 0 (Some pm) st = Inr (lg, st')"
    by (cases "forward_inference net cfg toks 0 (Some pm) st") auto
  from forward_inference_first(2) [OF f] obtain evs where
    t: "trace st' = trace st @ Forward 0 (width toks) (Some pm) # evs" and
    c: "hyper_calls evs = policy_calls cfg" and
    hi: "hyper_inputs evs =
           map (\<lambda>h. masked_mean_pool (rounding net) (hidden_dim cfg) h pm)
             (pooled_hidden net cfg toks (Some pm) st)"
    by (auto simp: mask_of_def)
  have nan: "\<forall>pl\<in>set (hyper_inputs evs). k < length pl \<longrightarrow> (\<forall>x\<in>set (pl ! k). x = NaN)"
  proof (intro ballI impI)
    fix pl x
    assume "pl \<in> set (hyper_inputs evs)" and kl: "k < length pl" and x: "x \<in> set (pl ! k)"
    then obtain h where pl: "pl = masked_mean_pool (rounding net) (hidden_dim cfg) h pm"
      unfolding hi by auto
    have "k < length h" using kl unfolding pl masked_mean_pool_length by simp
    then have "pl ! k = pool_row (rounding net) (hidden_dim cfg) (h ! k) (pm ! k)"
      unfolding pl using assms(2) by (rule masked_mean_pool_row)
    then show "x = NaN" using x pool_row_zero(1) [where rnd = "rounding net", OF assms(1,3)] by auto
  qed
  show "\<exists>lg st' evs. forward_inference net cfg toks 0 (Some pm) st = Inr (lg, st') \<and>
               trace st' = trace st @ Forward 0 (width toks) (Some pm) # evs \<and>
               hyper_calls evs = policy_calls cfg \<and>
               hyper_inputs evs =
                 map (\<lambda>h. masked_mean_pool (rounding net) (hidden_dim cfg) h pm)
                   (pooled_hidden net cfg toks (Some pm) st) \<and>
               (\<forall>pl\<in>set (hyper_inputs evs). k < length pl \<longrightarrow> (\<forall>x\<in>set (pl ! k). x = NaN))"
    apply (rule exI [of _ lg])
    apply (rule exI [of _ st'])
    apply (rule exI [of _ evs])
    apply (intro conjI)
        apply (rule f)
       apply (rule t)
      apply (rule c)
     apply (rule hi)
    apply (rule nan)
    done
qed

theorem masked_mean_zero_row_witness:
  "masked_mean_pool Fin 1 [[[Fin 5], [Fin 9]]] [[False, False]] ! 0 = [NaN] \<and>
   (\<exists>lg st'. forward_inference demo_net demo_cfg_parallel [[5, 9]] 0 (Some [[False, False]]) demo_st
        = Inr (lg, st') \<and>
      trace st' = [Forward 0 2 (Some [[False, False]]), HyperNet 0 None [[NaN]],
                   ApplyLora 1, ApplyLora 2])"
proof -
  have z: "rounding demo_net 0 = Fin 0" by (simp add: demo_defs)
  have k: "0 < length [[False, False]]" and m: "True \<notin> set ([[False, False]] ! 0)"
    by simp_all
  have w: "width [[5, 9 :: int]] = 2" by (simp add: width_def)
  note t = masked_mean_zero_row [OF z k m, where h = "[[[Fin 5], [Fin 9]]]" and d = 1
        and toks = "[[5, 9]]" and cfg = demo_cfg_parallel and st = demo_st]
  have a: "masked_mean_pool Fin 1 [[[Fin 5], [Fin 9]]] [[False, False]] ! 0 = [NaN]"
    using t by (simp add: demo_defs)
  from t w obtain lg st' evs where
    f: "forward_inference demo_net demo_cfg_parallel [[5, 9]] 0 (Some [[False, False]]) demo_st
        = Inr (lg, st')" and
    tr: "trace st' = trace demo_st @ Forward 0 (width [[5, 9 :: int]]) (Some [[False, False]]) # evs"
    by auto
  have "trace st' = [Forward 0 2 (Some [[False, False]]), HyperNet 0 None [[NaN]],
                   ApplyLora 1, ApplyLora 2]"
    using f by (auto simp: eval_defs demo_defs simp del: upt_Suc)
  then show ?thesis using a f by blast
qed

text \<open>
  Claim C4 as stated fails: under the instruction policy with an empty span the mask of the
  only sequence is zero everywhere, \<^verbatim>\<open>generate\<close> returns without any error, and the
  hypernetwork is called on a pooled vector that is NaN.
\<close>

theorem zero_mask_no_error:
  "(case generate demo_net demo_cfg demo_args_no_span demo_st of
      Inl e \<Rightarrow> []
    | Inr r \<Rightarrow> take 2 (trace (model (final r)))) =
     [Forward 0 3 (Some [[False, False, False]]), HyperNet 0 (Some 0) [[NaN]]]"
  by (simp add: eval_defs demo_defs del: upt_Suc)

section \<open>The pooling mask of the document policy\<close>

lemma init_tokens_row:
  assumes "init_tokens cfg a = Inr g" and "k < length (prompts a)" and "0 < total_len cfg a"
  shows "g ! k = prompts a ! k @ replicate (total_len cfg a - length (prompts a ! k)) (pad_id cfg)"
proof -
  have "fill_row (replicate (total_len cfg a) (pad_id cfg)) (prompts a ! k) = Inr (g ! k)"
    using fill_prompts_Inr [OF init_tokens_Inr(2) [OF assms(1)]] assms(2) by simp
  then show ?thesis unfolding fill_row_Inr_iff using assms(3) by auto
qed

lemma first_chunk_tokens:
  assumes "init_tokens cfg a = Inr g" and "min_prompt_size a < total_len cfg a"
    and "w \<le> min_prompt_size a"
  shows "map (take w) g = map (take w) (prompts a)"
proof (rule nth_equalityI)
  have lg: "length g = length (prompts a)" using assms(1) by (rule init_tokens_shape)
  then show "length (map (take w) g) = length (map (take w) (prompts a))" by simp
  fix k
  assume "k < length (map (take w) g)"
  then have k: "k < length (prompts a)" using lg by simp
  then have "length (prompts a ! k) \<in> set (map length (prompts a))" by simp
  then have "min_prompt_size a \<le> length (prompts a ! k)"
    unfolding min_prompt_size_def by (rule list_min_le)
  then have w: "w \<le> length (prompts a ! k)" using assms(3) by simp
  have "g ! k = prompts a ! k @ replicate (total_len cfg a - length (prompts a ! k)) (pad_id cfg)"
    using assms(1) k assms(2) by (intro init_tokens_row) simp_all
  then have "take w (g ! k) = take w (prompts a ! k)" using w by simp
  then show "map (take w) g ! k = map (take w) (prompts a) ! k" using k lg by simp
qed

lemma first_chunk_width:
  assumes "prompts a \<noteq> []" and "w \<le> min_prompt_size a"
  shows "width (map (take w) (prompts a)) = w"
proof -
  obtain p ps where p: "prompts a = p # ps" using assms(1) by (cases "prompts a") auto
  then have "length p \<in> set (map length (prompts a))" by simp
  then have "min_prompt_size a \<le> length p"
    unfolding min_prompt_size_def by (rule list_min_le)
  then show ?thesis using assms(2) by (simp add: width_def p)
qed

text \<open>
  Claim C6, amended. Under the document policy (any policy string that the test
  \<^verbatim>\<open>hyper_input_type in ('instruction')\<close> rejects), in every call of \<^verbatim>\<open>generate\<close> that
  returns and has a position to decode, pooling sees the first chunk of the prefill only.
  With \<open>w = min segment_size min_prompt_size\<close>: the first forward call has \<open>w\<close>
  positions, its tokens \<open>chunk\<close> are the first \<open>w\<close> tokens of every prompt, and its pooling
  mask \<open>pm\<close> marks, for each sequence, those of these tokens that differ from the pad
  value. The hypernetwork is called inside this forward call only, and the pooled vectors
  handed to it are exactly the masked means under \<open>pm\<close> of the hidden states that this
  forward call computes from \<open>chunk\<close>. Prompt tokens after the first \<open>w\<close> are not pooled.
\<close>

theorem document_policy_mask:
  fixes a :: gen_args and cfg :: config
  defines "w \<equiv> min (segment_size a) (min_prompt_size a)"
  defines "chunk \<equiv> map (take w) (prompts a)"
  defines "pm \<equiv> map (map (\<lambda>t. t \<noteq> pad_id cfg)) chunk"
  assumes "\<not> is_instruction (hyper_input_type a)"
    and "generate net cfg a st0 = Inr r"
    and "min_prompt_size a < total_len cfg a"
  shows "(\<exists>evs evs'. trace (model (final r)) = Forward 0 w (Some pm) # evs @ evs' \<and>
            forward_calls evs = [] \<and> later_calls evs') \<and>
         hyper_calls (trace (model (final r))) = policy_calls cfg \<and>
         hyper_inputs (trace (model (final r))) =
           map (\<lambda>h. masked_mean_pool (rounding net) (hidden_dim cfg) h pm)
             (pooled_hidden net cfg chunk (Some pm)
                (st0\<lparr>memory := empty_memory net, trace := []\<rparr>))"
proof -
  from assms(5) obtain g where g: "init_tokens cfg a = Inr g" and ne: "prompts a \<noteq> []"
    by (rule generate_Inr)
  from generate_trace [OF assms(5,6) g] assms(4) obtain toks pm' evs evs' where
    t: "trace (model (final r)) = Forward 0 (width toks) (Some pm') # evs @ evs'" and
    f: "forward_calls evs = []" and c: "hyper_calls evs = policy_calls cfg" and
    p: "hyper_inputs evs =
         map (\<lambda>h. masked_mean_pool (rounding net) (hidden_dim cfg) h pm')
           (pooled_hidden net cfg toks (Some pm') (st0\<lparr>memory := empty_memory net, trace := []\<rparr>))" and
    l: "later_calls evs'" and
    pm': "pm' = map (take w) (input_text_mask cfg g)" and
    toks: "toks = map (take w) g"
    unfolding w_def by blast
  have wle: "w \<le> min_prompt_size a" by (simp add: w_def)
  have tc: "toks = chunk"
    unfolding toks chunk_def using g assms(6) wle by (rule first_chunk_tokens)
  have "pm' = map (map (\<lambda>t. t \<noteq> pad_id cfg)) (map (take w) g)"
    unfolding pm' by (simp add: input_text_mask_def take_map)
  then have "pm' = map (map (\<lambda>t. t \<noteq> pad_id cfg)) toks" by (simp only: toks)
  then have pc: "pm' = pm" by (simp only: pm_def tc)
  have wd: "width toks = w" unfolding tc chunk_def using ne wle by (rule first_chunk_width)
  have none: "hyper_calls evs' = []" "hyper_inputs evs' = []"
    using l by (simp_all add: later_calls_def hyper_inputs_none)
  have "trace (model (final r)) = Forward 0 w (Some pm) # evs @ evs'"
    using t wd pc by simp
  then have first: "\<exists>evs evs'. trace (model (final r)) = Forward 0 w (Some pm) # evs @ evs' \<and>
            forward_calls evs = [] \<and> later_calls evs'"
    using f l by blast
  have calls: "hyper_calls (trace (model (final r))) = policy_calls cfg"
    using t c none by (simp add: hyper_calls_append)
  have "hyper_inputs (trace (model (final r))) = hyper_inputs evs"
    using t none by (simp add: hyper_inputs_append)
  then have inputs: "hyper_inputs (trace (model (final r))) =
           map (\<lambda>h. masked_mean_pool (rounding net) (hidden_dim cfg) h pm)
             (pooled_hidden net cfg chunk (Some pm)
                (st0\<lparr>memory := empty_memory net, trace := []\<rparr>))"
    using p tc pc by simp
  show ?thesis using first calls inputs by (intro conjI)
qed

theorem document_policy_mask_witness:
  "\<exists>r evs. generate demo_net demo_cfg_parallel demo_args demo_st = Inr r \<and>
     trace (model (final r)) = Forward 0 2 (Some [[True, True]]) # evs \<and>
     hyper_inputs (trace (model (final r))) = [[[Fin 7]]]"
proof -
  from demo_run_parallel obtain r where
    r: "generate demo_net demo_cfg_parallel demo_args demo_st = Inr r" by blast
  have d: "\<not> is_instruction (hyper_input_type demo_args)"
    by (simp add: is_instruction_def demo_defs)
  have n: "min_prompt_size demo_args < total_len demo_cfg_parallel demo_args"
    by (simp add: eval_defs demo_defs)
  have w: "min (segment_size demo_args) (min_prompt_size demo_args) = 2"
    by (simp add: eval_defs demo_defs)
  have c: "map (take 2) (prompts demo_args) = [[5, 9]]"
    by (simp add: demo_defs)
  have m: "map (map (\<lambda>t. t \<noteq> pad_id demo_cfg_parallel)) [[5, 9]] = [[True, True]]"
    by (simp add: demo_defs)
  note t = document_policy_mask [OF d r n, unfolded w c m]
  from t obtain evs evs' where
    "trace (model (final r)) = Forward 0 2 (Some [[True, True]]) # evs @ evs'"
    by blast
  moreover have "hyper_inputs (trace (model (final r))) = [[[Fin 7]]]"
    using t by (simp add: eval_defs demo_defs del: upt_Suc)
  ultimately show ?thesis using r by blast
qed

text \<open>
  Claim C6 as stated fails for a prompt that is segmented: for the prompt \<open>[5, 9, 2]\<close> and
  segments of two positions the mask covers two positions and the pooled vector is the mean
  of the first two hidden states, 7, not the mean 16/3 over all three prompt tokens.
\<close>

theorem document_policy_first_segment_only:
  "(case generate demo_net demo_cfg_parallel demo_args demo_st of
      Inl e \<Rightarrow> []
    | Inr r \<Rightarrow> take 2 (trace (model (final r)))) =
     [Forward 0 2 (Some [[True, True]]), HyperNet 0 None [[Fin 7]]] \<and>
   prompts demo_args = [[5, 9, 2]] \<and>
   masked_mean_pool Fin 1 [[[Fin 5], [Fin 9], [Fin 2]]] [[True, True, True]] = [[Fin (16 / 3)]]"
  by (simp add: eval_defs demo_defs del: upt_Suc)

section \<open>Regeneration under the parallel policy\<close>

lemma distinct_hyper_layers: "distinct (hyper_layers cfg)"
  by (simp add: hyper_layers_def split: option.splits)

lemma forward_Inr:
  assumes "forward net cfg toks labels sp pm st = Inr (loss, st')"
  obtains hs' where
    "hyper_block_train net cfg sp pm
       (run_layers net sp pm (pre_layers cfg)
          (tok_embeddings net toks, st\<lparr>trace := trace st @ [Forward sp (width toks) pm]\<rparr>))
       = Inr hs'"
    "st' = snd hs'"
  using assms
  by (auto simp: forward_def Let_def split: sum.splits prod.splits if_splits)

lemma hyper_block_train_later:
  assumes "hyper_block_train net cfg sp pm (h, st) = Inr hs'" and "0 < sp"
    and "\<not> serial_generate cfg" and "hyper_enabled cfg" and "pooling_states st = Some cached"
  shows "hs' = run_layers net sp pm (hyper_layers cfg)
             (h, apply_lora_all (hyper_all net cached) 0 (hyper_layers cfg)
                   (st\<lparr>trace := trace st @ [HyperNet sp None cached]\<rparr>))"
  using assms by (simp add: hyper_block_train_def)

lemma forward_later_parallel:
  assumes "forward net cfg toks labels sp pm st = Inr (loss, st')" and "0 < sp"
    and "\<not> serial_generate cfg" and "hyper_enabled cfg" and "pooling_states st = Some cached"
  shows "trace st' = trace st @ Forward sp (width toks) pm # HyperNet sp None cached #
                         map ApplyLora (hyper_layers cfg)"
    and "\<forall>j<length (hyper_layers cfg).
              lora st' (hyper_layers cfg ! j) = Some (hyper_all net cached j)"
proof -
  let ?st1 = "st\<lparr>trace := trace st @ [Forward sp (width toks) pm]\<rparr>"
  obtain h2 st2 where
    r: "run_layers net sp pm (pre_layers cfg) (tok_embeddings net toks, ?st1) = (h2, st2)"
    by (cases "run_layers net sp pm (pre_layers cfg) (tok_embeddings net toks, ?st1)")
  have k: "trace st2 = trace ?st1 \<and> lora st2 = lora ?st1 \<and> pooling_states st2 = pooling_states ?st1"
    using run_layers_keeps [of net sp pm "pre_layers cfg" "(tok_embeddings net toks, ?st1)"]
    by (simp add: r)
  from assms(1) obtain hs' where
    hb: "hyper_block_train net cfg sp pm (h2, st2) = Inr hs'" and s: "st' = snd hs'"
    unfolding r [symmetric] by (rule forward_Inr)
  have c: "pooling_states st2 = Some cached" using k assms(5) by simp
  let ?st3 = "apply_lora_all (hyper_all net cached) 0 (hyper_layers cfg)
                   (st2\<lparr>trace := trace st2 @ [HyperNet sp None cached]\<rparr>)"
  have e: "hs' = run_layers net sp pm (hyper_layers cfg) (h2, ?st3)"
    using hb assms(2-4) c by (rule hyper_block_train_later)
  have k': "trace st' = trace ?st3 \<and> lora st' = lora ?st3"
    using run_layers_keeps [of net sp pm "hyper_layers cfg" "(h2, ?st3)"] s e by simp
  show "trace st' = trace st @ Forward sp (width toks) pm # HyperNet sp None cached #
                         map ApplyLora (hyper_layers cfg)"
    using k k' by (simp add: apply_lora_all_trace)
  show "\<forall>j<length (hyper_layers cfg).
              lora st' (hyper_layers cfg ! j) = Some (hyper_all net cached j)"
  proof (intro allI impI)
    fix j
    assume "j < length (hyper_layers cfg)"
    with distinct_hyper_layers
    have "lora ?st3 (hyper_layers cfg ! j) = Some (hyper_all net cached (0 + j))"
      by (rule apply_lora_all_nth)
    then show "lora st' (hyper_layers cfg ! j) = Some (hyper_all net cached j)"
      using k' by simp
  qed
qed

text \<open>
  Claim C2, amended. Under the parallel policy a call of \<^verbatim>\<open>forward_inference\<close> with a
  positive \<^verbatim>\<open>start_pos\<close> (a later segment of the prefill, or a decoding step) that returns
  has called no hypernetwork and has left the LoRA parameters of every layer as they were:
  the parameters applied at \<^verbatim>\<open>start_pos == 0\<close> stay in the layers. A call of \<^verbatim>\<open>generate\<close>
  that returns has called the hypernetwork exactly once, inside a forward call with
  \<^verbatim>\<open>start_pos == 0\<close> and without a \<^verbatim>\<open>hyper_index\<close>, if the test
  \<^verbatim>\<open>if self.hyper_lora_start:\<close> holds and the call has a position to decode
  (\<open>min_prompt_size < total_len\<close>), and not at all otherwise. The regeneration from the
  cached pooled vector is the training path: a call of \<^verbatim>\<open>forward\<close> with a positive
  \<^verbatim>\<open>start_pos\<close> that returns, on a model where that test holds and
  \<^verbatim>\<open>self.pooling_states\<close> is a pooled vector, has called the hypernetwork on that vector and
  has applied the result to every layer of \<^verbatim>\<open>layers[hyper_lora_start:]\<close>.
\<close>

theorem parallel_regeneration:
  assumes "\<not> serial_generate cfg"
  shows "(0 < sp \<and> forward_inference net cfg toks sp pm st = Inr (lg, st') \<longrightarrow>
            trace st' = trace st @ [Forward sp (width toks) pm] \<and> lora st' = lora st) \<and>
         (generate net cfg a st0 = Inr r \<longrightarrow>
            hyper_calls (trace (model (final r))) =
              (if hyper_enabled cfg \<and> min_prompt_size a < total_len cfg a then [(0, None)]
               else [])) \<and>
         (0 < sp \<and> hyper_enabled cfg \<and> pooling_states st = Some cached \<and>
          forward net cfg toks labels sp pm st = Inr (loss, st'') \<longrightarrow>
            trace st'' = trace st @ Forward sp (width toks) pm # HyperNet sp None cached #
                           map ApplyLora (hyper_layers cfg) \<and>
            (\<forall>j<length (hyper_layers cfg).
               lora st'' (hyper_layers cfg ! j) = Some (hyper_all net cached j)))"
proof (intro conjI impI)
  assume "0 < sp \<and> forward_inference net cfg toks sp pm st = Inr (lg, st')"
  then have sp: "0 < sp" and f: "forward_inference net cfg toks sp pm st = Inr (lg, st')"
    by simp_all
  show "trace st' = trace st @ [Forward sp (width toks) pm]"
    using f sp by (rule forward_inference_later)
  show "lora st' = lora st"
    using f sp by (rule forward_inference_later)
next
  assume g: "generate net cfg a st0 = Inr r"
  show "hyper_calls (trace (model (final r))) =
      (if hyper_enabled cfg \<and> min_prompt_size a < total_len cfg a then [(0, None)] else [])"
  proof (cases "min_prompt_size a < total_len cfg a")
    case True
    with g have "hyper_calls (trace (model (final r))) = policy_calls cfg"
      by (rule generate_hyper_calls)
    then show ?thesis using assms True by (simp add: policy_calls_def)
  next
    case False
    with g have "trace (model (final r)) = []" by (rule generate_no_decode)
    then show ?thesis using False by simp
  qed
next
  assume "0 < sp \<and> hyper_enabled cfg \<and> pooling_states st = Some cached \<and>
          forward net cfg toks labels sp pm st = Inr (loss, st'')"
  then have sp: "0 < sp" and e: "hyper_enabled cfg" and c: "pooling_states st = Some cached"
    and f: "forward net cfg toks labels sp pm st = Inr (loss, st'')"
    by simp_all
  show "trace st'' = trace st @ Forward sp (width toks) pm # HyperNet sp None cached #
                           map ApplyLora (hyper_layers cfg)"
    using f sp assms e c by (rule forward_later_parallel)
  show "\<forall>j<length (hyper_layers cfg).
               lora st'' (hyper_layers cfg ! j) = Some (hyper_all net cached j)"
    using f sp assms e c by (rule forward_later_parallel)
qed

theorem parallel_regeneration_witness:
  "(\<exists>lg st'. forward_inference demo_net demo_cfg_parallel [[7]] 3 None demo_st_cached = Inr (lg, st') \<and>
      trace st' = [Forward 3 1 None]) \<and>
   (\<exists>r. generate demo_net demo_cfg_parallel demo_args demo_st = Inr r \<and>
      hyper_calls (trace (model (final r))) = [(0, None)]) \<and>
   (\<exists>r. generate demo_net demo_cfg_parallel demo_args_no_decode demo_st = Inr r \<and>
      hyper_calls (trace (model (final r))) = []) \<and>
   (\<exists>loss st'. forward demo_net demo_cfg_parallel [[7]] [[7]] 3 None demo_st_cached = Inr (loss, st') \<and>
      trace st' = [Forward 3 1 None, HyperNet 3 None [[Fin 3]], ApplyLora 1, ApplyLora 2])"
proof -
  have p: "\<not> serial_generate demo_cfg_parallel" and e: "hyper_enabled demo_cfg_parallel"
    and l: "hyper_layers demo_cfg_parallel = [1, 2]"
    by (simp_all add: eval_defs demo_defs del: upt_Suc)
  obtain lg st' where
    f: "forward_inference demo_net demo_cfg_parallel [[7]] 3 None demo_st_cached = Inr (lg, st')"
    by (simp add: eval_defs demo_defs del: upt_Suc)
  obtain loss st'' where
    t: "forward demo_net demo_cfg_parallel [[7]] [[7]] 3 None demo_st_cached = Inr (loss, st'')"
    by (simp add: eval_defs demo_defs del: upt_Suc)
  from demo_run_parallel obtain r where
    r: "generate demo_net demo_cfg_parallel demo_args demo_st = Inr r" by blast
  obtain r' where
    r': "generate demo_net demo_cfg_parallel demo_args_no_decode demo_st = Inr r'"
    by (simp add: eval_defs demo_defs del: upt_Suc)
  have n: "min_prompt_size demo_args < total_len demo_cfg_parallel demo_args"
    and n': "\<not> min_prompt_size demo_args_no_decode < total_len demo_cfg_parallel demo_args_no_decode"
    by (simp_all add: eval_defs demo_defs)
  have tr: "trace demo_st_cached = []" and ps: "pooling_states demo_st_cached = Some [[Fin 3]]"
    by (simp_all add: demo_defs)
  have wd: "width [[7::int]] = 1" by (simp add: width_def)
  note w = parallel_regeneration [OF p, of 3 demo_net "[[7]]" None demo_st_cached lg st'
      demo_args demo_st r "[[Fin 3]]" "[[7]]" loss st'']
  note w' = parallel_regeneration [OF p, of 3 demo_net "[[7]]" None demo_st_cached lg st'
      demo_args_no_decode demo_st r' "[[Fin 3]]" "[[7]]" loss st'']
  have a: "trace st' = [Forward 3 1 None]" using w f tr wd by simp
  have b: "hyper_calls (trace (model (final r))) = [(0, None)]" using w r n e by simp
  have b': "hyper_calls (trace (model (final r'))) = []" using w' r' n' by simp
  have c: "trace st'' = [Forward 3 1 None, HyperNet 3 None [[Fin 3]], ApplyLora 1, ApplyLora 2]"
    using w t e tr ps wd l by auto
  show ?thesis using f a r b r' b' t c by blast
qed

text \<open>
  Claim C2 as stated fails on the inference path: with the parallel policy the call of
  \<^verbatim>\<open>generate\<close> below makes forward calls at the positions 0, 2, 3 and 4, and the only call of
  the hypernetwork is the one at position 0.
\<close>

theorem parallel_inference_single_call:
  "(case generate demo_net demo_cfg_parallel demo_args demo_st of
      Inl e \<Rightarrow> ([], [])
    | Inr r \<Rightarrow> (hyper_calls (trace (model (final r))), forward_calls (trace (model (final r))))) =
     ([(0, None)], [(0, 2), (2, 1), (3, 1), (4, 1)])"
  by (simp add: eval_defs demo_defs del: upt_Suc)

section \<open>The bounds check on instruction spans\<close>

lemma spans_whole_no_assertion: "spans_whole pm j spans \<noteq> Inl AssertionError"
  by (induction spans arbitrary: pm j) simp_all

lemma spans_segmented_assertion:
  "\<exists>sp\<in>set spans. int S < snd sp \<Longrightarrow> j + length spans \<le> length pm \<Longrightarrow>
     spans_segmented S pm j spans = Inl AssertionError"
proof (induction spans arbitrary: pm j)
  case Nil
  then show ?case by simp
next
  case (Cons sp spans)
  show ?case
  proof (cases "int S < snd sp")
    case True
    then show ?thesis by simp
  next
    case False
    then have "\<exists>sp\<in>set spans. int S < snd sp" using Cons.prems(1) by auto
    moreover have "Suc j + length spans \<le> length (pm[j := set_span (pm ! j) sp])"
      using Cons.prems(2) by simp
    ultimately have "spans_segmented S (pm[j := set_span (pm ! j) sp]) (Suc j) spans
        = Inl AssertionError"
      by (rule Cons.IH)
    then show ?thesis using False Cons.prems(2) by simp
  qed
qed

text \<open>
  Claim C5. The bounds check \<^verbatim>\<open>assert h_span[1] <= segment_size\<close> stands in the segmented
  branch only. With the same span \<open>(0, 10)\<close>: a prompt of three tokens and segments of two
  positions takes the segmented branch and the call fails with the assertion; with a
  segment size of four the span still ends beyond the bound, but the call takes the other
  branch, clips the span to the three columns of the mask and returns.
\<close>

theorem span_check_only_when_segmented:
  "generate demo_net demo_cfg demo_args_span_segmented demo_st = Inl AssertionError \<and>
   snd (hd (hyper_input_spans demo_args_span)) > int (segment_size demo_args_span) \<and>
   (case generate demo_net demo_cfg demo_args_span demo_st of
      Inl e \<Rightarrow> []
    | Inr r \<Rightarrow> take 1 (trace (model (final r)))) =
     [Forward 0 3 (Some [[True, True, True]])]"
  by (simp add: eval_defs demo_defs del: upt_Suc)

section \<open>The forward calls of the prefill\<close>

lemma run_segments_calls:
  "0 < lsp \<Longrightarrow> run_segments net cfg a itm lsp segs (lg, st) = Inr (lg', st') \<Longrightarrow>
     forward_calls (trace st') = forward_calls (trace st) @ seg_calls lsp (map width segs)"
proof (induction segs arbitrary: lsp lg st)
  case Nil
  then show ?case by simp
next
  case (Cons seg segs)
  from Cons.prems obtain lg1 st1 where
    f: "forward_inference net cfg seg lsp None st = Inr (lg1, st1)" and
    r: "run_segments net cfg a itm (lsp + width seg) segs (Some lg1, st1) = Inr (lg', st')"
    by (auto split: sum.splits prod.splits)
  have t1: "trace st1 = trace st @ [Forward lsp (width seg) None]"
    using f Cons.prems(1) by (rule forward_inference_later)
  have "0 < lsp + width seg" using Cons.prems(1) by simp
  from Cons.IH [OF this r] show ?case
    by (simp add: t1 forward_calls_append)
qed

lemma segment_widths:
  assumes "0 < S" and "S < L" and "g \<noteq> []" and "\<forall>r\<in>set g. length r = L"
    and "py_range S (width g) S = Inr idxs"
  shows "\<exists>n. map width (tensor_split 0 idxs g) = replicate n S @ [L - n * S] \<and> n * S < L \<and>
           L - n * S \<le> S \<and> (L = S + 1 \<longrightarrow> n = 1)"
proof -
  define n where "n = (L - S + (S - 1)) div S"
  have wg: "width g = L" using assms(3,4) by (cases g) (simp_all add: width_def)
  have i: "idxs = map (\<lambda>k. 0 + S + k * S) [0..<n]"
    using py_range_Inr [OF assms(5)] by (simp add: wg n_def)
  have nS: "n * S < L" and rest: "L - n * S \<le> S"
    using range_count [OF assms(1,2)] unfolding n_def by blast+
  have "map width (tensor_split 0 idxs g) = replicate n S @ [L - n * S]"
    unfolding i using tensor_split_widths [OF assms(3,4), of 0 n S] nS by simp
  moreover have "n = 1" if "L = S + 1" using that assms(1) by (simp add: n_def)
  ultimately show ?thesis using nS rest by blast
qed

lemma forward_step_first_calls:
  assumes "forward_step net cfg a itm cur_pos ls = Inr (lg, st')" and "prev_pos ls = 0"
    and "tokens ls \<noteq> []" and "\<forall>row\<in>set (tokens ls). cur_pos \<le> length row"
  shows "\<exists>ws. forward_calls (trace st') = forward_calls (trace (model ls)) @ seg_calls 0 ws \<and>
           sum_list ws = cur_pos \<and> (\<forall>w\<in>set ws. w \<le> segment_size a) \<and>
           (\<forall>w\<in>set (butlast ws). w = segment_size a) \<and>
           (cur_pos \<le> segment_size a \<longrightarrow> ws = [cur_pos]) \<and>
           (cur_pos = segment_size a + 1 \<longrightarrow> ws = [segment_size a, 1])"
proof -
  let ?S = "segment_size a"
  let ?sl = "map (slice_py 0 cur_pos) (tokens ls)"
  have ne: "?sl \<noteq> []" using assms(3) by simp
  have rows: "\<forall>r\<in>set ?sl. length r = cur_pos"
    using assms(4) by (auto simp: slice_py_def)
  have wsl: "width ?sl = cur_pos" using ne rows by (cases ?sl) (auto simp: width_def)
  show ?thesis
  proof (cases "?S < cur_pos")
    case True
    from assms(1,2) True obtain idxs where
      pr: "py_range ?S (width ?sl) ?S = Inr idxs" and
      rs: "run_segments net cfg a itm 0 (tensor_split 0 idxs ?sl) (None, model ls) = Inr (Some lg, st')"
      by (auto simp: forward_step_def need_segment_def Let_def
          split: sum.splits prod.splits option.splits)
    have S: "0 < ?S" using py_range_Inr [OF pr] by simp
    from segment_widths [OF S True ne rows pr] obtain n where
      w: "map width (tensor_split 0 idxs ?sl) = replicate n ?S @ [cur_pos - n * ?S]" and
      nS: "n * ?S < cur_pos" and rest: "cur_pos - n * ?S \<le> ?S" and
      one: "cur_pos = ?S + 1 \<longrightarrow> n = 1"
      by blast
    obtain seg segs where ts: "tensor_split 0 idxs ?sl = seg # segs"
      using tensor_split_Cons by blast
    from rs obtain pm lg1 st1 where
      f: "forward_inference net cfg seg 0 (Some pm) (model ls) = Inr (lg1, st1)"
      and r: "run_segments net cfg a itm (0 + width seg) segs (Some lg1, st1) = Inr (Some lg, st')"
      unfolding ts by (auto split: sum.splits prod.splits)
    have pos: "0 < 0 + width seg" using forward_inference_first(1) [OF f] by simp
    from forward_inference_first(2) [OF f] obtain evs where
      "trace st1 = trace (model ls) @ Forward 0 (width seg) (Some pm) # evs"
      "forward_calls evs = []"
      by blast
    then have c1: "forward_calls (trace st1) = forward_calls (trace (model ls)) @ [(0, width seg)]"
      by (simp add: forward_calls_append)
    have c0: "forward_calls (trace st') =
            forward_calls (trace (model ls)) @ seg_calls 0 (map width (seg # segs))"
      using run_segments_calls [OF pos r] c1 by simp
    have "map width (seg # segs) = replicate n ?S @ [cur_pos - n * ?S]"
      using w unfolding ts .
    then have c: "forward_calls (trace st') =
            forward_calls (trace (model ls)) @ seg_calls 0 (replicate n ?S @ [cur_pos - n * ?S])"
      using c0 by (simp only:)
    let ?ws = "replicate n ?S @ [cur_pos - n * ?S]"
    have s: "sum_list ?ws = cur_pos" using nS by (simp add: sum_list_replicate)
    have b1: "\<forall>w\<in>set ?ws. w \<le> ?S" using rest by auto
    have b2: "\<forall>w\<in>set (butlast ?ws). w = ?S" by (simp add: butlast_append)
    have b3: "cur_pos = ?S + 1 \<longrightarrow> ?ws = [?S, 1]" using one by auto
    have b4: "cur_pos \<le> ?S \<longrightarrow> ?ws = [cur_pos]" using True by simp
    show ?thesis
      apply (rule exI [of _ ?ws])
      apply (intro conjI)
           apply (rule c)
          apply (rule s)
         apply (rule b1)
        apply (rule b2)
       apply (rule b4)
      apply (rule b3)
      done
  next
    case False
    from assms(1,2) False obtain pm where
      f: "forward_inference net cfg ?sl 0 (Some pm) (model ls) = Inr (lg, st')"
      by (auto simp: forward_step_def need_segment_def Let_def split: sum.splits)
    from forward_inference_first(2) [OF f] obtain evs where
      "trace st' = trace (model ls) @ Forward 0 (width ?sl) (Some pm) # evs"
      "forward_calls evs = []"
      by blast
    then have "forward_calls (trace st') = forward_calls (trace (model ls)) @ seg_calls 0 [cur_pos]"
      by (simp add: forward_calls_append wsl)
    then show ?thesis using False by (intro exI [of _ "[cur_pos]"]) simp
  qed
qed

lemma prefill_forward_calls:
  assumes "generate net cfg a st0 = Inr r" and "min_prompt_size a < total_len cfg a"
  shows "\<exists>ws rest. forward_calls (trace (model (final r))) = seg_calls 0 ws @ rest \<and>
           list_all (\<lambda>c. 0 < fst c) rest \<and>
           sum_list ws = min_prompt_size a \<and> (\<forall>w\<in>set ws. w \<le> segment_size a) \<and>
           (\<forall>w\<in>set (butlast ws). w = segment_size a) \<and>
           (min_prompt_size a \<le> segment_size a \<longrightarrow> ws = [min_prompt_size a]) \<and>
           (min_prompt_size a = segment_size a + 1 \<longrightarrow> ws = [segment_size a, 1])"
proof -
  let ?mn = "min_prompt_size a"
  from assms(1) obtain g where g: "init_tokens cfg a = Inr g" and ne: "prompts a \<noteq> []" and
    lp0: "decode_loop net cfg a (input_text_mask cfg g) [?mn..<total_len cfg a]
       \<lparr>tokens = g, prev_pos = 0, model = st0\<lparr>memory := empty_memory net, trace := []\<rparr>,
        steps = []\<rparr> = Inr (final r)"
    by (rule generate_Inr)
  let ?itm = "input_text_mask cfg g"
  let ?ls0 = "\<lparr>tokens = g, prev_pos = 0, model = st0\<lparr>memory := empty_memory net, trace := []\<rparr>,
        steps = []\<rparr>"
  have lp: "decode_loop net cfg a ?itm (?mn # [Suc ?mn..<total_len cfg a]) ?ls0 = Inr (final r)"
    using lp0 assms(2) by (simp add: upt_conv_Cons)
  then obtain ls1 stop where
    st: "decode_step net cfg a ?itm ?mn ?ls0 = Inr (ls1, stop)" and
    rest: "if stop then final r = ls1
           else decode_loop net cfg a ?itm [Suc ?mn..<total_len cfg a] ls1 = Inr (final r)"
    by (auto split: sum.splits prod.splits if_splits)
  from st obtain s lg where
    f: "forward_step net cfg a ?itm ?mn ?ls0 = Inr (lg, model ls1)" and
    pp: "prev_pos ls1 = (if stop then prev_pos ?ls0 else ?mn)"
    by (rule decode_step_Inr)
  have p0: "prev_pos ?ls0 = 0" by simp
  have lg: "length g = length (prompts a)" using g by (rule init_tokens_shape)
  have gne: "tokens ?ls0 \<noteq> []" using lg ne by auto
  have grows: "\<forall>row\<in>set (tokens ?ls0). ?mn \<le> length row"
    using init_tokens_shape(2) [OF g] lg assms(2) by (auto simp: in_set_conv_nth)
  from forward_step_first_calls [OF f p0 gne grows] obtain ws where
    c0: "forward_calls (trace (model ls1)) = forward_calls (trace (model ?ls0)) @ seg_calls 0 ws" and
    w: "sum_list ws = ?mn" "\<forall>w\<in>set ws. w \<le> segment_size a"
       "\<forall>w\<in>set (butlast ws). w = segment_size a"
       "?mn \<le> segment_size a \<longrightarrow> ws = [?mn]"
       "?mn = segment_size a + 1 \<longrightarrow> ws = [segment_size a, 1]"
    by blast
  have c: "forward_calls (trace (model ls1)) = seg_calls 0 ws" using c0 by simp
  have pos: "0 < ?mn" using forward_step_first [OF f p0] by simp
  obtain evs where
    t2: "trace (model (final r)) = trace (model ls1) @ evs" and l2: "later_calls evs"
  proof (cases stop)
    case True
    then have "trace (model (final r)) = trace (model ls1) @ []" using rest by simp
    then show ?thesis using later_calls_Nil by (rule that)
  next
    case False
    then have lp': "decode_loop net cfg a ?itm [Suc ?mn..<total_len cfg a] ls1 = Inr (final r)"
      using rest by simp
    have "0 < prev_pos ls1" using pp False pos by simp
    moreover have "\<forall>p\<in>set [Suc ?mn..<total_len cfg a]. 0 < p" by simp
    ultimately show ?thesis using decode_loop_later [OF lp'] that by blast
  qed
  have "forward_calls (trace (model (final r))) = seg_calls 0 ws @ forward_calls evs"
    using t2 c by (simp add: forward_calls_append)
  moreover have "list_all (\<lambda>c. 0 < fst c) (forward_calls evs)"
    using l2 by (simp add: later_calls_def)
  ultimately show ?thesis
    using w
    apply (intro exI [of _ ws])
    apply (rule exI [of _ "forward_calls evs"])
    apply (intro conjI)
          apply assumption+
    done
qed

text \<open>
  Claim C1. The first iteration of the loop of \<^verbatim>\<open>generate\<close> has \<open>prev_pos = 0\<close> and
  \<open>cur_pos = L\<close>, the length of the prefill range, and passes \<^verbatim>\<open>tokens[:, 0:L]\<close>, a batch
  \<open>g\<close> whose rows have length \<open>L\<close>. For a positive segment size \<open>S\<close>: in the segmented
  branch the range \<^verbatim>\<open>range(S, L, S)\<close> is well defined and \<^verbatim>\<open>tensor_split\<close> yields
  consecutive chunks that reassemble every row, whose widths sum to \<open>L\<close>, are at most
  \<open>S\<close>, and equal \<open>S\<close> for all but the last; for \<open>L = S + 1\<close> the widths are \<open>S\<close> and
  \<open>1\<close>. Otherwise the whole range goes into one call and \<open>L \<le> S\<close>. A range of exactly
  \<open>S\<close> positions is not segmented (the test is strict), one of \<open>S + 1\<close> is. In a call of
  \<^verbatim>\<open>generate\<close> that returns and has a position to decode, the forward calls of the prefill
  are consecutive, start at position 0, have sequence lengths that sum to
  \<open>min_prompt_size\<close>, are at most \<open>segment_size\<close> and equal it for all but the last; they
  are one call for a prompt of at most \<open>segment_size\<close> tokens and two calls of
  \<open>segment_size\<close> and one position for a prompt of \<open>segment_size + 1\<close> tokens; every
  later forward call has a positive \<^verbatim>\<open>start_pos\<close>.
\<close>

theorem prefill_segmentation:
  fixes g :: "'a list list"
  assumes "0 < S" and "g \<noteq> []" and "\<forall>r\<in>set g. length r = L"
  shows "(need_segment 0 L S \<longrightarrow>
            (\<exists>idxs. py_range S (width g) S = Inr idxs \<and>
               sum_list (map width (tensor_split 0 idxs g)) = L \<and>
               (\<forall>c\<in>set (tensor_split 0 idxs g). width c \<le> S) \<and>
               (\<forall>c\<in>set (butlast (tensor_split 0 idxs g)). width c = S) \<and>
               (\<forall>k<length g. concat (map (\<lambda>c. c ! k) (tensor_split 0 idxs g)) = g ! k) \<and>
               (L = S + 1 \<longrightarrow> map width (tensor_split 0 idxs g) = [S, 1]))) \<and>
         (\<not> need_segment 0 L S \<longrightarrow> width g = L \<and> L \<le> S) \<and>
         \<not> need_segment 0 S S \<and> need_segment 0 (S + 1) S \<and>
         (generate net cfg a st0 = Inr r \<and> min_prompt_size a < total_len cfg a \<longrightarrow>
            (\<exists>ws rest. forward_calls (trace (model (final r))) = seg_calls 0 ws @ rest \<and>
               list_all (\<lambda>c. 0 < fst c) rest \<and>
               sum_list ws = min_prompt_size a \<and> (\<forall>w\<in>set ws. w \<le> segment_size a) \<and>
               (\<forall>w\<in>set (butlast ws). w = segment_size a) \<and>
               (min_prompt_size a \<le> segment_size a \<longrightarrow> ws = [min_prompt_size a]) \<and>
               (min_prompt_size a = segment_size a + 1 \<longrightarrow> ws = [segment_size a, 1])))"
  using segment_chunks [OF assms] prefill_forward_calls [of net cfg a st0 r] by blast

theorem prefill_segmentation_witness:
  "py_range 2 (width [[5, 9, 2 :: int]]) 2 = Inr [2] \<and>
   map width (tensor_split 0 [2] [[5, 9, 2 :: int]]) = [2, 1] \<and>
   width [[5, 9 :: int]] = 2 \<and> \<not> need_segment 0 2 2 \<and> need_segment 0 3 2 \<and>
   (\<exists>r. generate demo_net demo_cfg demo_args demo_st = Inr r \<and>
      forward_calls (trace (model (final r))) = seg_calls 0 [2, 1] @ [(3, 1), (4, 1)])"
proof -
  have a: "py_range 2 (width [[5, 9, 2 :: int]]) 2 = Inr [2] \<and>
      map width (tensor_split 0 [2] [[5, 9, 2 :: int]]) = [2, 1] \<and>
      width [[5, 9 :: int]] = 2 \<and> \<not> need_segment 0 2 2 \<and> need_segment 0 3 2"
    using prefill_segmentation [of 2 "[[5, 9, 2 :: int]]" 3]
      prefill_segmentation [of 2 "[[5, 9 :: int]]" 2]
    by (simp add: need_segment_def py_range_def width_def slice_py_def)
  from demo_run obtain r where
    r: "generate demo_net demo_cfg demo_args demo_st = Inr r" and
    f: "forward_calls (trace (model (final r))) = [(0, 2), (2, 1), (3, 1), (4, 1)]"
    by blast
  have "forward_calls (trace (model (final r))) = seg_calls 0 [2, 1] @ [(3, 1), (4, 1)]"
    using f by simp
  then show ?thesis using a r by blast
qed

end
